theory Spec2Isabelle
  imports Main "HOL-Library.Word"
begin

section \<open>Machine types and configuration (config.h)\<close>

text \<open>
  The sketches run on an ESP32: \<^verbatim>\<open>int\<close> is a 32-bit two's complement integer,
  \<^verbatim>\<open>unsigned long\<close> and \<^verbatim>\<open>uint32_t\<close> are 32-bit unsigned integers. All three are
  modelled as \<open>32 word\<close>; an \<^verbatim>\<open>int\<close> is read with \<open>sint\<close> and compared with the
  signed orders \<open><s\<close>, an unsigned value is read with \<open>unat\<close> and compared with \<open><\<close>.
  Converting between \<^verbatim>\<open>int\<close> and \<^verbatim>\<open>unsigned long\<close> keeps the bits.
\<close>

type_synonym uint32 = "32 word"
type_synonym int32 = "32 word"
type_synonym uint8 = "8 word"

definition IR_ADDRESS :: uint32 where "IR_ADDRESS = 0xBF00"
definition IR_KEY_UP :: uint32 where "IR_KEY_UP = 0x1"
definition IR_KEY_DOWN :: uint32 where "IR_KEY_DOWN = 0x9"
definition IR_KEY_LEFT :: uint32 where "IR_KEY_LEFT = 0x4"
definition IR_KEY_RIGHT :: uint32 where "IR_KEY_RIGHT = 0x6"
definition IR_KEY_SHUTDOWN :: uint32 where "IR_KEY_SHUTDOWN = 0x5"
definition IR_KEY_SET :: uint32 where "IR_KEY_SET = 0xE"
definition IR_KEY_DIRECTION :: uint32 where "IR_KEY_DIRECTION = 0x1A"

definition DEFAULT_CURTAIN_TIME :: int32 where "DEFAULT_CURTAIN_TIME = 5000"
definition SIDE_KEY_TIME :: int32 where "SIDE_KEY_TIME = 1000"

text \<open>
  \<^verbatim>\<open>int speed = 600\<close> is a global of the main sketch; its only writer, \<^verbatim>\<open>setSpeed\<close>,
  is never called, so it is a constant here.
\<close>

definition speed :: int where "speed = 600"

definition IR_DEBOUNCE_TIME :: uint32 where "IR_DEBOUNCE_TIME = 200"
definition SET_MODE_DEBOUNCE_TIME :: uint32 where "SET_MODE_DEBOUNCE_TIME = 1000"

section \<open>Program state and environment\<close>

text \<open>
  One decoded infrared frame, as \<^verbatim>\<open>loop\<close> and the pulse loops copy it out of
  \<^verbatim>\<open>IrReceiver.decodedIRData\<close> into their locals.
\<close>

record frame =
  address :: uint32
  command :: uint32
  protocol :: uint8



text \<open>
  What the dispatcher writes to the serial line when it decides about a frame:
  the first line of \<^verbatim>\<open>handleIRCommand\<close> and the two "ignored" messages of \<^verbatim>\<open>loop\<close>
  in normal mode, the "ignored" message in set mode. All other serial output is left out.
\<close>

datatype log_event =
  Handled uint32
  | DuplicateIgnored
  | InvalidIgnored
  | SetModeDuplicateIgnored

text \<open>
  The globals of the sketch, followed by the hardware and the environment:
  \<^item> \<open>loop_stepCount\<close> is the \<^verbatim>\<open>static int stepCount\<close> of \<^verbatim>\<open>loop\<close>;
  \<^item> \<open>ENABLE_PIN\<close> and \<open>DIR_PIN\<close> are the levels last written (\<open>True\<close> is HIGH;
    the A4988 driver is enabled when ENABLE is LOW);
  \<^item> \<open>pulses\<close> lists the step pulses sent so far, latest first, each with the DIR level
    at that moment and the length of the step in microseconds;
  \<^item> \<open>clock\<close> is the time since boot in microseconds: it advances by the delays the code
    asks for, and computation itself takes no time;
  \<^item> \<open>ir_in\<close> lists what the successive calls of \<^verbatim>\<open>IrReceiver.decode()\<close> will find:
    \<open>Some f\<close> when the call returns true with frame \<open>f\<close>, \<open>None\<close> when it returns false;
  \<^item> \<open>eeprom_time\<close> is the four bytes at EEPROM address 0, \<open>eeprom_dir\<close> the byte at
    address 4;
  \<^item> \<open>serial_log\<close> lists the dispatch messages, latest first.
\<close>

record state =
  CURTAIN_TIME :: int32
  isNormalDirection :: bool
  motorRunning :: bool
  stopRequested :: bool
  isFullyRolledUp :: bool
  isFullyRolledDown :: bool
  setMode :: bool
  timingInProgress :: bool
  timingStart :: uint32
  shutdownCount :: int
  lastShutdownTime :: uint32
  lastIRCommand :: uint32
  lastIRTime :: uint32
  loop_stepCount :: int
  ENABLE_PIN :: bool
  DIR_PIN :: bool
  pulses :: "(bool \<times> nat) list"
  clock :: nat
  ir_in :: "frame option list"
  eeprom_time :: "32 word"
  eeprom_dir :: uint8
  serial_log :: "log_event list"

subsection \<open>Arduino primitives\<close>

definition millis :: "state \<Rightarrow> uint32" where
  "millis s = word_of_nat (clock s div 1000)"

definition delay :: "nat \<Rightarrow> state \<Rightarrow> state" where
  "delay ms s = s\<lparr>clock := clock s + 1000 * ms\<rparr>"

definition delayMicroseconds :: "uint32 \<Rightarrow> state \<Rightarrow> state" where
  "delayMicroseconds us s = s\<lparr>clock := clock s + unat us\<rparr>"

text \<open>
  One step: STEP high, a pulse of \<open>width\<close> microseconds, STEP low, then the rest of
  \<open>stepDelay\<close> (an \<^verbatim>\<open>unsigned long\<close> subtraction).
\<close>

definition step_pulse :: "uint32 \<Rightarrow> uint32 \<Rightarrow> state \<Rightarrow> state" where
  "step_pulse width stepDelay s =
     (let s1 = delayMicroseconds (stepDelay - width) (delayMicroseconds width s)
      in s1\<lparr>pulses := (DIR_PIN s, clock s1 - clock s) # pulses s\<rparr>)"

text \<open>
  \<^verbatim>\<open>IrReceiver.decode()\<close>: \<open>decoded\<close> is what the call finds, \<open>ir_next\<close> the state after it.
\<close>

definition decoded :: "state \<Rightarrow> frame option" where
  "decoded s = (case ir_in s of [] \<Rightarrow> None | x # _ \<Rightarrow> x)"

definition ir_next :: "state \<Rightarrow> state" where
  "ir_next s = s\<lparr>ir_in := tl (ir_in s)\<rparr>"

definition valid_stop :: "uint32 \<Rightarrow> frame \<Rightarrow> bool" where
  "valid_stop key f \<longleftrightarrow> command f = key \<and> address f \<noteq> 0x0 \<and> protocol f \<noteq> 0"

subsection \<open>Persistent storage\<close>

definition saveCurtainTime :: "state \<Rightarrow> state" where
  "saveCurtainTime s = s\<lparr>eeprom_time := CURTAIN_TIME s\<rparr>"

definition loadCurtainTime :: "state \<Rightarrow> state" where
  "loadCurtainTime s =
     (let savedTime = eeprom_time s
      in if 0 <s savedTime \<and> savedTime <s 60000
         then s\<lparr>CURTAIN_TIME := savedTime\<rparr>
         else s\<lparr>CURTAIN_TIME := DEFAULT_CURTAIN_TIME\<rparr>)"

definition clearCurtainTime :: "state \<Rightarrow> state" where
  "clearCurtainTime s = s\<lparr>eeprom_time := 0, CURTAIN_TIME := DEFAULT_CURTAIN_TIME\<rparr>"

definition saveDirectionSetting :: "state \<Rightarrow> state" where
  "saveDirectionSetting s = s\<lparr>eeprom_dir := (if isNormalDirection s then 1 else 0)\<rparr>"

definition loadDirectionSetting :: "state \<Rightarrow> state" where
  "loadDirectionSetting s = s\<lparr>isNormalDirection := (eeprom_dir s \<noteq> 0)\<rparr>"

section \<open>Motion generator of the main sketch\<close>

text \<open>
  The \<^verbatim>\<open>while\<close> loop of \<^verbatim>\<open>rotateForTime\<close>. It runs as long as the clock allows, so
  it is a partial function: \<open>None\<close> stands for a loop that never ends. The comparison
  \<^verbatim>\<open>millis() - startTime < duration\<close> is unsigned (\<^verbatim>\<open>duration\<close> is converted), the
  local \<^verbatim>\<open>int stepCount\<close> only counts up from 0 and is a \<open>nat\<close> here. \<^verbatim>\<open>break\<close> leaves
  with the state at hand.
\<close>

partial_function (option) rotate_loop ::
  "uint32 \<Rightarrow> int32 \<Rightarrow> uint32 \<Rightarrow> nat \<Rightarrow> state \<Rightarrow> state option"
where
  "rotate_loop startTime duration stepDelay stepCount s =
     (if millis s - startTime < duration \<and> \<not> stopRequested s then
        (let s1 = step_pulse 1 stepDelay s in
         if Suc stepCount mod 100 = 0 then
           (case decoded s1 of
              Some f \<Rightarrow>
                if valid_stop IR_KEY_SHUTDOWN f
                then Some ((ir_next s1)\<lparr>stopRequested := True\<rparr>)
                else rotate_loop startTime duration stepDelay (Suc stepCount) (ir_next s1)
            | None \<Rightarrow> rotate_loop startTime duration stepDelay (Suc stepCount) (ir_next s1))
         else rotate_loop startTime duration stepDelay (Suc stepCount) s1)
      else Some s)"

declare rotate_loop.simps [code]

definition rotateForTime :: "int32 \<Rightarrow> bool \<Rightarrow> state \<Rightarrow> state option" where
  "rotateForTime duration clockwise s =
     (let s1 = s\<lparr>ENABLE_PIN := False, DIR_PIN := clockwise\<rparr>;
          startTime = millis s1;
          stepDelay = word_of_int (1000000 div speed)
      in map_option (\<lambda>s2. s2\<lparr>ENABLE_PIN := True\<rparr>)
           (rotate_loop startTime duration stepDelay 0 s1))"

section \<open>Command handlers of the main sketch\<close>

definition stopMotor :: "state \<Rightarrow> state" where
  "stopMotor s = delay 100 (s\<lparr>ENABLE_PIN := True, motorRunning := False\<rparr>)"

definition rollUpCurtain :: "state \<Rightarrow> state option" where
  "rollUpCurtain s =
     (let s1 = s\<lparr>motorRunning := True, stopRequested := False\<rparr>;
          directionParam = (if isNormalDirection s1 then True else False)
      in map_option
           (\<lambda>s2. let s3 = s2\<lparr>motorRunning := False\<rparr>;
                     s4 = (if \<not> stopRequested s3
                           then s3\<lparr>isFullyRolledUp := True, isFullyRolledDown := False\<rparr>
                           else s3)
                 in s4\<lparr>stopRequested := False\<rparr>)
           (rotateForTime (CURTAIN_TIME s1) directionParam s1))"

definition layDownCurtain :: "state \<Rightarrow> state option" where
  "layDownCurtain s =
     (let s1 = s\<lparr>motorRunning := True, stopRequested := False\<rparr>;
          directionParam = (if isNormalDirection s1 then False else True)
      in map_option
           (\<lambda>s2. let s3 = s2\<lparr>motorRunning := False\<rparr>;
                     s4 = (if \<not> stopRequested s3
                           then s3\<lparr>isFullyRolledDown := True, isFullyRolledUp := False\<rparr>
                           else s3)
                 in s4\<lparr>stopRequested := False\<rparr>)
           (rotateForTime (CURTAIN_TIME s1) directionParam s1))"

definition handleSetKey :: "state \<Rightarrow> state" where
  "handleSetKey s =
     (if \<not> setMode s then
        (let s1 = s\<lparr>setMode := True, timingInProgress := True, timingStart := millis s\<rparr>;
             s2 = s1\<lparr>ENABLE_PIN := False\<rparr>;
             setDirection = (if isNormalDirection s2 then False else True)
         in s2\<lparr>DIR_PIN := setDirection, motorRunning := True\<rparr>)
      else
        (let duration = millis s - timingStart s;
             s1 = s\<lparr>ENABLE_PIN := True, motorRunning := False, timingInProgress := False\<rparr>;
             s2 = saveCurtainTime (s1\<lparr>CURTAIN_TIME := duration\<rparr>);
             s3 = s2\<lparr>isFullyRolledDown := True, isFullyRolledUp := False\<rparr>
         in s3\<lparr>setMode := False\<rparr>))"

definition handleShutdownKey :: "state \<Rightarrow> state" where
  "handleShutdownKey s =
     (let currentTime = millis s in
      if setMode s then
        s\<lparr>ENABLE_PIN := True, setMode := False, timingInProgress := False,
          motorRunning := False\<rparr>
      else
        (let s1 = (if currentTime - lastShutdownTime s < 2000
                   then s\<lparr>shutdownCount := shutdownCount s + 1\<rparr>
                   else s\<lparr>shutdownCount := 1\<rparr>);
             s2 = s1\<lparr>lastShutdownTime := currentTime\<rparr>
         in if shutdownCount s2 \<ge> 3
            then (clearCurtainTime s2)\<lparr>shutdownCount := 0\<rparr>
            else stopMotor (s2\<lparr>stopRequested := True\<rparr>)))"

definition handleDirectionKey :: "state \<Rightarrow> state" where
  "handleDirectionKey s =
     saveDirectionSetting
       (if isNormalDirection s then s\<lparr>isNormalDirection := False\<rparr>
        else s\<lparr>isNormalDirection := True\<rparr>)"

text \<open>The \<^verbatim>\<open>switch\<close> of \<^verbatim>\<open>handleIRCommand\<close>, after its first serial line.\<close>

definition handleIRCommand :: "uint32 \<Rightarrow> state \<Rightarrow> state option" where
  "handleIRCommand cmd s0 =
     (let s = s0\<lparr>serial_log := Handled cmd # serial_log s0\<rparr> in
      if cmd = IR_KEY_UP then
        (if isFullyRolledUp s then Some s
         else rollUpCurtain (s\<lparr>isFullyRolledDown := False, isFullyRolledUp := False\<rparr>))
      else if cmd = IR_KEY_DOWN then
        (if isFullyRolledDown s then Some s
         else layDownCurtain (s\<lparr>isFullyRolledDown := False, isFullyRolledUp := False\<rparr>))
      else if cmd = IR_KEY_LEFT then
        (let s1 = s\<lparr>isFullyRolledUp := False, isFullyRolledDown := False\<rparr>;
             leftDirection = (if isNormalDirection s1 then True else False)
         in rotateForTime SIDE_KEY_TIME leftDirection s1)
      else if cmd = IR_KEY_RIGHT then
        (let s1 = s\<lparr>isFullyRolledUp := False, isFullyRolledDown := False\<rparr>;
             rightDirection = (if isNormalDirection s1 then False else True)
         in rotateForTime SIDE_KEY_TIME rightDirection s1)
      else if cmd = IR_KEY_SET then Some (handleSetKey s)
      else if cmd = IR_KEY_SHUTDOWN then Some (handleShutdownKey s)
      else if cmd = IR_KEY_DIRECTION then Some (handleDirectionKey s)
      else Some s)"

section \<open>The dispatcher\<close>

text \<open>
  The second half of \<^verbatim>\<open>loop\<close>: one calibration step when timing is in progress, with a
  poll of the receiver every 500 steps, then the idle delay and the safety disable.
  \<open>loop_idle\<close> is the last two \<^verbatim>\<open>if\<close> statements, which the early \<^verbatim>\<open>return\<close> of the
  calibration abort skips.
\<close>

definition loop_idle :: "state \<Rightarrow> state" where
  "loop_idle s =
     (let s1 = (if \<not> setMode s \<or> \<not> timingInProgress s then delay 50 s else s)
      in if \<not> setMode s1 \<and> \<not> motorRunning s1 then s1\<lparr>ENABLE_PIN := True\<rparr> else s1)"

definition loop_motion :: "state \<Rightarrow> state" where
  "loop_motion s =
     (if setMode s \<and> timingInProgress s \<and> motorRunning s then
        (let stepDelay = word_of_int (1000000 div speed);
             s1 = step_pulse 1 stepDelay (s\<lparr>ENABLE_PIN := False\<rparr>);
             s2 = s1\<lparr>loop_stepCount := loop_stepCount s1 + 1\<rparr>
         in if loop_stepCount s2 mod 500 = 0 then
              (case decoded s2 of
                 Some f \<Rightarrow>
                   if valid_stop IR_KEY_SHUTDOWN f
                   then (ir_next s2)\<lparr>ENABLE_PIN := True, setMode := False,
                          timingInProgress := False, motorRunning := False,
                          loop_stepCount := 0\<rparr>
                   else loop_idle (ir_next s2)
               | None \<Rightarrow> loop_idle (ir_next s2))
            else loop_idle s2)
      else loop_idle s)"

text \<open>
  The first half of \<^verbatim>\<open>loop\<close>: the address check, the set-mode filter, the validity check
  and the debounce. \<open>accept\<close> is the three statements of every accepting branch: the
  handler, then the two debounce fields.
\<close>

definition accept :: "frame \<Rightarrow> uint32 \<Rightarrow> state \<Rightarrow> state option" where
  "accept f currentTime s =
     map_option (\<lambda>s1. s1\<lparr>lastIRCommand := command f, lastIRTime := currentTime\<rparr>)
       (handleIRCommand (command f) s)"

definition loop :: "state \<Rightarrow> state option" where
  "loop s =
     (case decoded s of
        None \<Rightarrow> Some (loop_motion (ir_next s))
      | Some f \<Rightarrow>
          (let s0 = ir_next s in
           if address f \<noteq> IR_ADDRESS then Some s0
           else
             (let currentTime = millis s0 in
              if setMode s0 then
                (if (command f = IR_KEY_SET \<or> command f = IR_KEY_SHUTDOWN) \<and>
                    command f \<noteq> 0xFFFFFFFF \<and> address f \<noteq> 0x0 \<and> protocol f \<noteq> 0
                 then
                   (if command f \<noteq> lastIRCommand s0 \<or>
                       currentTime - lastIRTime s0 > SET_MODE_DEBOUNCE_TIME
                    then accept f currentTime s0
                    else Some (s0\<lparr>serial_log := SetModeDuplicateIgnored # serial_log s0\<rparr>))
                 else Some s0)
              else
                map_option loop_motion
                  (if command f \<noteq> 0xFFFFFFFF then
                     (if motorRunning s0 \<and> valid_stop IR_KEY_SHUTDOWN f
                      then accept f currentTime s0
                      else if command f \<noteq> lastIRCommand s0 \<or>
                              currentTime - lastIRTime s0 > IR_DEBOUNCE_TIME
                      then accept f currentTime s0
                      else Some (s0\<lparr>serial_log := DuplicateIgnored # serial_log s0\<rparr>))
                   else Some (s0\<lparr>serial_log := InvalidIgnored # serial_log s0\<rparr>)))))"

text \<open>
  The values of the globals at power-on, with whatever the EEPROM holds and whatever the
  receiver will deliver, and the function \<^verbatim>\<open>setup()\<close> of the sketch (\<open>setup_sketch\<close>
  here, as the plain name is taken by Isabelle).
\<close>

definition power_on :: "32 word \<Rightarrow> uint8 \<Rightarrow> frame option list \<Rightarrow> state" where
  "power_on et ed irs =
     \<lparr>CURTAIN_TIME = DEFAULT_CURTAIN_TIME, isNormalDirection = True,
      motorRunning = False, stopRequested = False,
      isFullyRolledUp = False, isFullyRolledDown = False,
      setMode = False, timingInProgress = False, timingStart = 0,
      shutdownCount = 0, lastShutdownTime = 0,
      lastIRCommand = 0, lastIRTime = 0, loop_stepCount = 0,
      ENABLE_PIN = False, DIR_PIN = False, pulses = [], clock = 0,
      ir_in = irs, eeprom_time = et, eeprom_dir = ed, serial_log = []\<rparr>"

definition setup_sketch :: "state \<Rightarrow> state" where
  "setup_sketch s =
     (let s1 = s\<lparr>DIR_PIN := False, ENABLE_PIN := True\<rparr>;
          s2 = loadDirectionSetting (loadCurtainTime s1)
      in s2\<lparr>isFullyRolledUp := False, isFullyRolledDown := False\<rparr>)"

text \<open>
  The states the device can be in between two calls of \<^verbatim>\<open>loop\<close>: time may pass between
  the calls.
\<close>

inductive reachable :: "state \<Rightarrow> bool" where
  boot: "reachable (setup_sketch (power_on et ed irs))"
| pass: "reachable s \<Longrightarrow> reachable (s\<lparr>clock := clock s + d\<rparr>)"
| iter: "reachable s \<Longrightarrow> loop s = Some s' \<Longrightarrow> reachable s'"

section \<open>The trapezoidal move of the sketch_sep7a variant\<close>

text \<open>
  \<^verbatim>\<open>smoothRotate\<close> exists only in the older sketch, where the stop key has code 0. The
  globals it touches (\<^verbatim>\<open>stopRequested\<close>, the pins, the receiver) are those of the main
  sketch, so it is modelled on the same state.
\<close>

definition IR_KEY_SHUTDOWN_sep7a :: uint32 where "IR_KEY_SHUTDOWN_sep7a = 0x0"

definition maxSpeed :: int where "maxSpeed = 400"
definition minSpeed :: int where "minSpeed = 100"

text \<open>
  Division of C++ \<^verbatim>\<open>int\<close>s truncates towards zero. The step counts are mathematical
  integers here: the products below stay inside 32 bits up to seven million steps.
\<close>

definition cdiv :: "int \<Rightarrow> int \<Rightarrow> int" where
  "cdiv a b = (if (a < 0) = (b < 0) then \<bar>a\<bar> div \<bar>b\<bar> else - (\<bar>a\<bar> div \<bar>b\<bar>))"

definition accelSteps :: "int \<Rightarrow> int" where "accelSteps steps = cdiv steps 4"
definition decelSteps :: "int \<Rightarrow> int" where "decelSteps steps = cdiv steps 4"

definition currentSpeed :: "int \<Rightarrow> int \<Rightarrow> int" where
  "currentSpeed steps i =
     (if i < accelSteps steps then
        minSpeed + cdiv ((maxSpeed - minSpeed) * i) (accelSteps steps)
      else if i \<ge> steps - decelSteps steps then
        minSpeed + cdiv ((maxSpeed - minSpeed) * (steps - i)) (decelSteps steps)
      else maxSpeed)"

definition smooth_stepDelay :: "int \<Rightarrow> int \<Rightarrow> uint32" where
  "smooth_stepDelay steps i = word_of_int (cdiv 1000000 (currentSpeed steps i))"

function smooth_loop :: "int \<Rightarrow> int \<Rightarrow> state \<Rightarrow> state" where
  "smooth_loop steps i s =
     (if i < steps \<and> \<not> stopRequested s then
        (let s1 = step_pulse 3 (smooth_stepDelay steps i) s in
         if i mod 100 = 0 then
           (case decoded s1 of
              Some f \<Rightarrow>
                if valid_stop IR_KEY_SHUTDOWN_sep7a f
                then (ir_next s1)\<lparr>stopRequested := True\<rparr>
                else smooth_loop steps (i + 1) (ir_next s1)
            | None \<Rightarrow> smooth_loop steps (i + 1) (ir_next s1))
         else smooth_loop steps (i + 1) s1)
      else s)"
  by pat_completeness auto
termination
  by (relation "measure (\<lambda>(steps, i, s). nat (steps - i))") auto

declare smooth_loop.simps [simp del]

definition smoothRotate :: "int \<Rightarrow> bool \<Rightarrow> state \<Rightarrow> state" where
  "smoothRotate steps clockwise s =
     (smooth_loop steps 0 (s\<lparr>ENABLE_PIN := False, DIR_PIN := clockwise\<rparr>))
       \<lparr>stopRequested := False\<rparr>"

section \<open>Notions used in the statements\<close>

text \<open>The length of one step in microseconds: the pulse and the rest of the step delay.\<close>

definition period :: "uint32 \<Rightarrow> uint32 \<Rightarrow> nat" where
  "period width stepDelay = unat width + unat (stepDelay - width)"

text \<open>
  What the receiver will deliver: \<open>no_stop_pending key\<close> when no call of
  \<^verbatim>\<open>decode()\<close> will find a valid stop frame with code \<open>key\<close>, \<open>only_noise\<close> when every
  frame it will find has a zero address or a zero protocol.
\<close>

definition no_stop_pending :: "uint32 \<Rightarrow> state \<Rightarrow> bool" where
  "no_stop_pending key s =
     list_all (\<lambda>x. case x of None \<Rightarrow> True | Some f \<Rightarrow> \<not> valid_stop key f) (ir_in s)"

definition only_noise :: "state \<Rightarrow> bool" where
  "only_noise s =
     list_all (\<lambda>x. case x of None \<Rightarrow> True | Some f \<Rightarrow> address f = 0 \<or> protocol f = 0)
       (ir_in s)"


definition ms_of :: "nat \<Rightarrow> uint32" where
  "ms_of c = word_of_nat (c div 1000)"

subsection \<open>Example states and frames\<close>

text \<open>
  The device after boot with 7000 ms stored; the same device 8.2 seconds into a
  calibration; the same device after one press of the stop key, ten seconds after boot.
  The frames: a stop frame of another remote and one of the configured remote, a frame with
  the invalid code, the down key, a stop code with zero address and protocol, and the stop
  frame of the older sketch.
\<close>

definition idle_example :: state where
  "idle_example = setup_sketch (power_on 7000 1 [])"

definition calibrating_example :: state where
  "calibrating_example = (handleSetKey idle_example)\<lparr>clock := 8200000\<rparr>"

definition foreign_stop :: frame where
  "foreign_stop = \<lparr>address = 0x1234, command = 0x5, protocol = 8\<rparr>"

definition own_stop :: frame where
  "own_stop = \<lparr>address = 0xBF00, command = 0x5, protocol = 8\<rparr>"

definition invalid_frame :: frame where
  "invalid_frame = \<lparr>address = 0xBF00, command = 0xFFFFFFFF, protocol = 8\<rparr>"

definition down_frame :: frame where
  "down_frame = \<lparr>address = 0xBF00, command = 0x9, protocol = 8\<rparr>"

definition stopped_example :: state where
  "stopped_example = handleShutdownKey (idle_example\<lparr>clock := 10000000\<rparr>)"

definition noise_frame :: frame where
  "noise_frame = \<lparr>address = 0x0, command = 0x5, protocol = 0\<rparr>"

definition sep7a_stop :: frame where
  "sep7a_stop = \<lparr>address = 0xBF00, command = 0x0, protocol = 8\<rparr>"

section \<open>The pulse loop of \<^verbatim>\<open>rotateForTime\<close>\<close>

lemmas ir_keys =
  IR_ADDRESS_def IR_KEY_UP_def IR_KEY_DOWN_def IR_KEY_LEFT_def IR_KEY_RIGHT_def
  IR_KEY_SHUTDOWN_def IR_KEY_SET_def IR_KEY_DIRECTION_def

lemma step_pulse_eq:
  "step_pulse w sd s =
     s\<lparr>clock := clock s + period w sd, pulses := (DIR_PIN s, period w sd) # pulses s\<rparr>"
  by (simp add: step_pulse_def delayMicroseconds_def period_def Let_def)

lemma period_main: "period 1 (word_of_int (1000000 div speed)) = 1666"
  by (simp add: period_def speed_def)

lemma decoded_step_pulse [simp]: "decoded (step_pulse w sd s) = decoded s"
  by (simp add: step_pulse_eq decoded_def)

lemma stopRequested_step [simp]:
  "stopRequested (step_pulse w sd s) = stopRequested s"
  "stopRequested (ir_next s) = stopRequested s"
  by (simp_all add: step_pulse_eq ir_next_def)

lemma rotate_loop_done:
  "\<not> (millis s - st < D \<and> \<not> stopRequested s) \<Longrightarrow> rotate_loop st D sd c s = Some s"
  by (subst rotate_loop.simps) auto

lemma rotate_loop_step:
  "millis s - st < D \<Longrightarrow> \<not> stopRequested s \<Longrightarrow>
   rotate_loop st D sd c s =
     (let s1 = step_pulse 1 sd s in
         if Suc c mod 100 = 0 then
           (case decoded s1 of
              Some f \<Rightarrow>
                if valid_stop IR_KEY_SHUTDOWN f
                then Some ((ir_next s1)\<lparr>stopRequested := True\<rparr>)
                else rotate_loop st D sd (Suc c) (ir_next s1)
            | None \<Rightarrow> rotate_loop st D sd (Suc c) (ir_next s1))
         else rotate_loop st D sd (Suc c) s1)"
  by (subst rotate_loop.simps) simp

text \<open>
  Induction along a run of the loop that ends: one case for leaving by the loop
  condition, one for the \<^verbatim>\<open>break\<close>, one for a step with a poll and one for a step
  without.
\<close>

lemma rotate_loop_induct [consumes 1, case_names exit brk poll nopoll]:
  assumes run: "rotate_loop st D sd c s = Some s'"
    and exit: "\<And>c s. \<not> (millis s - st < D \<and> \<not> stopRequested s) \<Longrightarrow> P c s s"
    and brk: "\<And>c s f. millis s - st < D \<Longrightarrow> \<not> stopRequested s \<Longrightarrow> Suc c mod 100 = 0 \<Longrightarrow>
                decoded s = Some f \<Longrightarrow> valid_stop IR_KEY_SHUTDOWN f \<Longrightarrow>
                P c s ((ir_next (step_pulse 1 sd s))\<lparr>stopRequested := True\<rparr>)"
    and poll: "\<And>c s s'. millis s - st < D \<Longrightarrow> \<not> stopRequested s \<Longrightarrow> Suc c mod 100 = 0 \<Longrightarrow>
                (\<forall>f. decoded s = Some f \<longrightarrow> \<not> valid_stop IR_KEY_SHUTDOWN f) \<Longrightarrow>
                P (Suc c) (ir_next (step_pulse 1 sd s)) s' \<Longrightarrow> P c s s'"
    and nopoll: "\<And>c s s'. millis s - st < D \<Longrightarrow> \<not> stopRequested s \<Longrightarrow> Suc c mod 100 \<noteq> 0 \<Longrightarrow>
                P (Suc c) (step_pulse 1 sd s) s' \<Longrightarrow> P c s s'"
  shows "P c s s'"
proof -
  have "P' st' D' sd' c s s'" if "rotate_loop st' D' sd' c s = Some s'"
    and P': "P' = (\<lambda>st' D' sd' c s s'. st' = st \<longrightarrow> D' = D \<longrightarrow> sd' = sd \<longrightarrow> P c s s')"
    for P' st' D' sd' c s s'
    using that(1)
  proof (induction st' D' sd' c s s'
      rule: rotate_loop.raw_induct [rotated 1, consumes 1, case_names step])
    case (step rotate_loop st' D' sd' c s s')
    show ?case
      unfolding P'
    proof (intro impI)
      assume eqs: "st' = st" "D' = D" "sd' = sd"
      note IH = step(1) [unfolded P', rule_format, OF _ refl refl refl]
      show "P c s s'"
      proof (cases "millis s - st < D \<and> \<not> stopRequested s")
        case False
        from step(2) [unfolded eqs] have "Some s = Some s'"
          by (simp only: if_not_P [OF False])
        then have "s' = s" by simp
        with exit [OF False] show ?thesis by simp
      next
        case True
        let ?s1 = "step_pulse 1 sd s"
        from True step(2) [unfolded eqs] have body:
          "(if Suc c mod 100 = 0 then
             (case decoded ?s1 of
                Some f \<Rightarrow>
                  if valid_stop IR_KEY_SHUTDOWN f
                  then Some ((ir_next ?s1)\<lparr>stopRequested := True\<rparr>)
                  else rotate_loop st D sd (Suc c) (ir_next ?s1)
              | None \<Rightarrow> rotate_loop st D sd (Suc c) (ir_next ?s1))
           else rotate_loop st D sd (Suc c) ?s1) = Some s'"
          by (simp add: Let_def)
        show ?thesis
        proof (cases "Suc c mod 100 = 0")
          case False
          with body have "rotate_loop st D sd (Suc c) ?s1 = Some s'" by simp
          then have "P (Suc c) ?s1 s'" by (rule IH)
          with True False show ?thesis by (intro nopoll [of s c s']) simp_all
        next
          case p: True
          show ?thesis
          proof (cases "decoded ?s1")
            case None
            with body p have "rotate_loop st D sd (Suc c) (ir_next ?s1) = Some s'" by simp
            then have "P (Suc c) (ir_next ?s1) s'" by (rule IH)
            moreover from None have "\<forall>f. decoded s = Some f \<longrightarrow> \<not> valid_stop IR_KEY_SHUTDOWN f"
              by simp
            ultimately show ?thesis using True p by (intro poll [of s c s']) simp_all
          next
            case (Some f)
            show ?thesis
            proof (cases "valid_stop IR_KEY_SHUTDOWN f")
              case v: True
              with body p Some have "s' = (ir_next ?s1)\<lparr>stopRequested := True\<rparr>" by simp
              moreover from Some have "decoded s = Some f" by simp
              ultimately show ?thesis using True p v brk [of s c f] by simp
            next
              case v: False
              with body p Some have "rotate_loop st D sd (Suc c) (ir_next ?s1) = Some s'" by simp
              then have "P (Suc c) (ir_next ?s1) s'" by (rule IH)
              moreover from Some v have "\<forall>f. decoded s = Some f \<longrightarrow> \<not> valid_stop IR_KEY_SHUTDOWN f"
                by simp
              ultimately show ?thesis using True p by (intro poll [of s c s']) simp_all
            qed
          qed
        qed
      qed
    qed
  qed
  from this [OF run refl] show ?thesis by simp
qed

text \<open>
  The loop changes nothing but the pulse train, the clock, the receiver and the stop flag,
  and every pulse has the direction that was set before the loop.
\<close>

lemma rotate_loop_frame:
  assumes "rotate_loop st D sd c s = Some s'"
  shows "\<exists>n k b. s' = s\<lparr>pulses := replicate n (DIR_PIN s, period 1 sd) @ pulses s,
                          clock := clock s + n * period 1 sd,
                          ir_in := drop k (ir_in s),
                          stopRequested := b\<rparr>"
  using assms
proof (induction rule: rotate_loop_induct)
  case (exit c s)
  have "s = s\<lparr>pulses := replicate 0 (DIR_PIN s, period 1 sd) @ pulses s,
              clock := clock s + 0 * period 1 sd, ir_in := drop 0 (ir_in s),
              stopRequested := stopRequested s\<rparr>" by simp
  then show ?case by blast
next
  case (brk c s f)
  have "(ir_next (step_pulse 1 sd s))\<lparr>stopRequested := True\<rparr> =
        s\<lparr>pulses := replicate 1 (DIR_PIN s, period 1 sd) @ pulses s,
          clock := clock s + 1 * period 1 sd, ir_in := drop 1 (ir_in s),
          stopRequested := True\<rparr>"
    by (simp add: step_pulse_eq ir_next_def drop_Suc)
  then show ?case by blast
next
  case (poll c s s')
  let ?s1 = "ir_next (step_pulse 1 sd s)"
  from poll(5) obtain n k b where
    "s' = ?s1\<lparr>pulses := replicate n (DIR_PIN ?s1, period 1 sd) @ pulses ?s1,
              clock := clock ?s1 + n * period 1 sd, ir_in := drop k (ir_in ?s1),
              stopRequested := b\<rparr>" by blast
  then have "s' = s\<lparr>pulses := replicate (Suc n) (DIR_PIN s, period 1 sd) @ pulses s,
                     clock := clock s + (Suc n) * period 1 sd,
                     ir_in := drop (Suc k) (ir_in s), stopRequested := b\<rparr>"
    by (simp add: step_pulse_eq ir_next_def drop_Suc replicate_app_Cons_same add.assoc drop_tl)
  then show ?case by blast
next
  case (nopoll c s s')
  let ?s1 = "step_pulse 1 sd s"
  from nopoll(4) obtain n k b where
    "s' = ?s1\<lparr>pulses := replicate n (DIR_PIN ?s1, period 1 sd) @ pulses ?s1,
              clock := clock ?s1 + n * period 1 sd, ir_in := drop k (ir_in ?s1),
              stopRequested := b\<rparr>" by blast
  then have "s' = s\<lparr>pulses := replicate (Suc n) (DIR_PIN s, period 1 sd) @ pulses s,
                     clock := clock s + (Suc n) * period 1 sd,
                     ir_in := drop k (ir_in s), stopRequested := b\<rparr>"
    by (simp add: step_pulse_eq replicate_app_Cons_same add.assoc)
  then show ?case by blast
qed

lemma rotate_loop_exit:
  assumes "rotate_loop st D sd c s = Some s'"
  shows "stopRequested s' \<or> \<not> millis s' - st < D"
  using assms
  by (induction rule: rotate_loop_induct) auto

lemma no_stop_pending_step [simp]:
  "no_stop_pending key (step_pulse w sd s) = no_stop_pending key s"
  by (simp add: no_stop_pending_def step_pulse_eq)

lemma no_stop_pending_next:
  "no_stop_pending key s \<Longrightarrow> no_stop_pending key (ir_next s)"
  by (cases "ir_in s") (simp_all add: no_stop_pending_def ir_next_def)

lemma no_stop_pending_decoded:
  "no_stop_pending key s \<Longrightarrow> decoded s = Some f \<Longrightarrow> \<not> valid_stop key f"
  by (cases "ir_in s") (simp_all add: no_stop_pending_def decoded_def)

lemma only_noise_no_stop: "only_noise s \<Longrightarrow> no_stop_pending key s"
  by (auto simp: only_noise_def no_stop_pending_def list_all_iff valid_stop_def
      split: option.splits)

lemma rotate_loop_no_stop:
  assumes "rotate_loop st D sd c s = Some s'"
  shows "no_stop_pending IR_KEY_SHUTDOWN s \<longrightarrow> stopRequested s' = stopRequested s"
  using assms
proof (induction rule: rotate_loop_induct)
  case (brk c s f)
  then show ?case by (auto dest: no_stop_pending_decoded)
next
  case (poll c s s')
  then show ?case
    using no_stop_pending_next [of IR_KEY_SHUTDOWN "step_pulse 1 sd s"] by simp
next
  case (nopoll c s s')
  then show ?case by simp
qed simp

text \<open>
  The elapsed time the loop computes is the true one as long as it stays below
  \<open>2 ^ 32\<close> milliseconds.
\<close>

lemma elapsed_unat:
  assumes "c0 \<le> c" "c div 1000 - c0 div 1000 < 2 ^ 32"
  shows "unat ((word_of_nat (c div 1000) :: 32 word) - word_of_nat (c0 div 1000)) =
         c div 1000 - c0 div 1000"
proof -
  have "c0 div 1000 \<le> c div 1000" using assms(1) by (rule div_le_mono)
  then have "(word_of_nat (c div 1000) :: 32 word) - word_of_nat (c0 div 1000) =
             word_of_nat (c div 1000 - c0 div 1000)"
    by simp
  then show ?thesis using assms(2) by (simp add: unat_of_nat)
qed

text \<open>
  The loop ends for every duration but \<open>0xFFFFFFFF\<close>: a step lasts at most two
  milliseconds, so the elapsed time cannot jump over the last values below \<open>2 ^ 32\<close>.
\<close>

lemma rotate_loop_terminates:
  assumes D: "unat D + 1 < 2 ^ 32"
    and sd: "0 < period 1 sd" "period 1 sd \<le> 2000"
    and inv: "c0 \<le> clock s" "clock s div 1000 - c0 div 1000 \<le> unat D + 1"
  shows "\<exists>s'. rotate_loop (word_of_nat (c0 div 1000)) D sd c s = Some s'"
  using inv
proof (induction "(c0 div 1000 + unat D) * 1000 - clock s" arbitrary: s c rule: less_induct)
  case less
  let ?st = "word_of_nat (c0 div 1000) :: 32 word"
  have el: "unat (millis s - ?st) = clock s div 1000 - c0 div 1000"
    using less.prems D by (simp add: millis_def elapsed_unat)
  show ?case
  proof (cases "millis s - ?st < D \<and> \<not> stopRequested s")
    case False
    then show ?thesis by (simp add: rotate_loop_done)
  next
    case True
    then have lt: "clock s div 1000 - c0 div 1000 < unat D"
      using el by (simp add: word_less_nat_alt)
    let ?s1 = "step_pulse 1 sd s"
    have c1: "clock ?s1 = clock s + period 1 sd" "clock (ir_next ?s1) = clock s + period 1 sd"
      by (simp_all add: step_pulse_eq ir_next_def)
    from lt have below: "clock s < (c0 div 1000 + unat D) * 1000"
      by (simp add: less_diff_conv div_less_iff_less_mult)
    have meas: "(c0 div 1000 + unat D) * 1000 - (clock s + period 1 sd)
                  < (c0 div 1000 + unat D) * 1000 - clock s"
      using below sd(1) by arith
    have i1: "c0 \<le> clock s + period 1 sd" using less.prems(1) by simp
    have "(clock s + period 1 sd) div 1000 \<le> clock s div 1000 + 2"
      using sd(2)
      by (simp add: div_le_mono [of "clock s + period 1 sd" "clock s + 2000" 1000, simplified])
    then have i2: "(clock s + period 1 sd) div 1000 - c0 div 1000 \<le> unat D + 1"
      using lt by arith
    have r1: "\<exists>s'. rotate_loop ?st D sd (Suc c) ?s1 = Some s'"
      using less.hyps [of ?s1 "Suc c"] meas i1 i2 by (simp add: c1)
    have r2: "\<exists>s'. rotate_loop ?st D sd (Suc c) (ir_next ?s1) = Some s'"
      using less.hyps [of "ir_next ?s1" "Suc c"] meas i1 i2 by (simp add: c1)
    from True have "rotate_loop ?st D sd c s =
      (if Suc c mod 100 = 0 then
           (case decoded ?s1 of
              Some f \<Rightarrow>
                if valid_stop IR_KEY_SHUTDOWN f
                then Some ((ir_next ?s1)\<lparr>stopRequested := True\<rparr>)
                else rotate_loop ?st D sd (Suc c) (ir_next ?s1)
            | None \<Rightarrow> rotate_loop ?st D sd (Suc c) (ir_next ?s1))
         else rotate_loop ?st D sd (Suc c) ?s1)"
      by (simp add: rotate_loop_step Let_def)
    with r1 r2 show ?thesis
      by (cases "decoded ?s1") auto
  qed
qed

section \<open>Persistent configuration store\<close>

lemmas state_defs =
  idle_example_def setup_sketch_def power_on_def loadCurtainTime_def loadDirectionSetting_def
  DEFAULT_CURTAIN_TIME_def word_sless_alt Let_def

text \<open>
  Claim C7, as the code has it: \<^verbatim>\<open>loadCurtainTime\<close> takes the stored value exactly when
  it is greater than 0 and less than 60000, both bounds excluded, and the default of
  5000 ms otherwise; \<^verbatim>\<open>clearCurtainTime\<close> stores 0, so a load after it gives the default.
\<close>

theorem loadCurtainTime_valid_range:
  "CURTAIN_TIME (loadCurtainTime s) =
     (if 0 < sint (eeprom_time s) \<and> sint (eeprom_time s) < 60000
      then eeprom_time s else 5000) \<and>
   (CURTAIN_TIME (loadCurtainTime s) = eeprom_time s \<longleftrightarrow>
      0 < sint (eeprom_time s) \<and> sint (eeprom_time s) < 60000) \<and>
   eeprom_time (clearCurtainTime s) = 0 \<and>
   CURTAIN_TIME (loadCurtainTime (clearCurtainTime s)) = 5000"
  by (auto simp: loadCurtainTime_def clearCurtainTime_def DEFAULT_CURTAIN_TIME_def
      word_sless_alt Let_def)

theorem loadCurtainTime_valid_range_witness:
  "CURTAIN_TIME (loadCurtainTime (power_on 59999 1 [])) = 59999 \<and>
   CURTAIN_TIME (loadCurtainTime (power_on 0 1 [])) = 5000 \<and>
   CURTAIN_TIME (loadCurtainTime (power_on 70000 1 [])) = 5000 \<and>
   CURTAIN_TIME (loadCurtainTime (clearCurtainTime (power_on 59999 1 []))) = 5000"
  using loadCurtainTime_valid_range [of "power_on 59999 1 []"]
    loadCurtainTime_valid_range [of "power_on 0 1 []"]
    loadCurtainTime_valid_range [of "power_on 70000 1 []"]
  by (simp add: power_on_def)

text \<open>
  The upper bound itself is not in the range: a stored 60000 is replaced by the default.
\<close>

theorem loadCurtainTime_upper_bound_counterexample:
  "eeprom_time (power_on 60000 1 []) = 60000 \<and>
   CURTAIN_TIME (loadCurtainTime (power_on 60000 1 [])) = 5000"
  by (simp add: state_defs)

section \<open>Calibration\<close>

text \<open>
  Claim C4: the second press of the set key while calibrating takes the time since the
  start of the timing, disables the driver (ENABLE high), keeps that time as the new
  travel duration and stores it as it is, marks the blind as fully down and not fully up,
  and leaves set mode with the motor stopped. Only the next load replaces a value outside
  the range by the default.
\<close>

theorem handleSetKey_second_press:
  assumes "setMode s"
  shows "ENABLE_PIN (handleSetKey s) \<and>
         CURTAIN_TIME (handleSetKey s) = millis s - timingStart s \<and>
         eeprom_time (handleSetKey s) = millis s - timingStart s \<and>
         isFullyRolledDown (handleSetKey s) \<and> \<not> isFullyRolledUp (handleSetKey s) \<and>
         \<not> setMode (handleSetKey s) \<and> \<not> timingInProgress (handleSetKey s) \<and>
         \<not> motorRunning (handleSetKey s) \<and>
         CURTAIN_TIME (loadCurtainTime (handleSetKey s)) =
           (if 0 <s millis s - timingStart s \<and> millis s - timingStart s <s 60000
            then millis s - timingStart s else DEFAULT_CURTAIN_TIME)"
  using assms
  by (simp add: handleSetKey_def saveCurtainTime_def loadCurtainTime_def Let_def)

theorem handleSetKey_second_press_witness:
  "setMode calibrating_example \<and>
   ENABLE_PIN (handleSetKey calibrating_example) \<and>
   CURTAIN_TIME (handleSetKey calibrating_example) = 8200 \<and>
   eeprom_time (handleSetKey calibrating_example) = 8200 \<and>
   isFullyRolledDown (handleSetKey calibrating_example) \<and>
   \<not> isFullyRolledUp (handleSetKey calibrating_example) \<and>
   \<not> setMode (handleSetKey calibrating_example) \<and>
   CURTAIN_TIME (loadCurtainTime (handleSetKey calibrating_example)) = 8200"
proof -
  have h: "setMode calibrating_example"
    by (simp add: calibrating_example_def handleSetKey_def state_defs)
  have t: "millis calibrating_example - timingStart calibrating_example = 8200"
    by (simp add: calibrating_example_def handleSetKey_def state_defs millis_def)
  from handleSetKey_second_press [OF h] h show ?thesis
    by (simp add: t word_sless_alt)
qed

section \<open>The address check of the dispatcher\<close>



section \<open>The timed move and the handlers\<close>

lemma millis_clock [simp]: "millis (s\<lparr>clock := c\<rparr>) = ms_of c"
  by (simp add: millis_def ms_of_def)

lemma unat_not_max:
  fixes D :: "32 word"
  assumes "D \<noteq> - 1"
  shows "unat D + 1 < 2 ^ 32"
proof -
  have lt: "unat D < 2 ^ 32" using unsigned_less [of D, where ?'a = nat] by simp
  have "unat D \<noteq> 4294967295"
  proof
    assume "unat D = 4294967295"
    then have "word_of_nat (unat D) = (word_of_nat 4294967295 :: 32 word)" by simp
    then have "D = - 1" by simp
    with assms show False by simp
  qed
  with lt show ?thesis by simp
qed

lemma rotateForTime_returns:
  assumes "D \<noteq> - 1"
  shows "\<exists>s'. rotateForTime D cw s = Some s'"
proof -
  let ?s1 = "s\<lparr>ENABLE_PIN := False, DIR_PIN := cw\<rparr>"
  have "\<exists>s'. rotate_loop (word_of_nat (clock ?s1 div 1000)) D (word_of_int (1000000 div speed)) 0 ?s1 = Some s'"
    by (rule rotate_loop_terminates [OF unat_not_max [OF assms]]) (simp_all add: period_main)
  then show ?thesis
    by (auto simp: rotateForTime_def millis_def Let_def)
qed

lemma rotateForTime_frame:
  assumes "rotateForTime D cw s = Some s'"
  shows "\<exists>n k b. s' = s\<lparr>ENABLE_PIN := True, DIR_PIN := cw,
                      pulses := replicate n (cw, 1666) @ pulses s,
                      clock := clock s + n * 1666,
                      ir_in := drop k (ir_in s),
                      stopRequested := b\<rparr> \<and>
         (b \<or> \<not> ms_of (clock s + n * 1666) - millis s < D) \<and>
         (no_stop_pending IR_KEY_SHUTDOWN s \<longrightarrow> b = stopRequested s)"
proof -
  let ?s1 = "s\<lparr>ENABLE_PIN := False, DIR_PIN := cw\<rparr>"
  let ?sd = "word_of_int (1000000 div speed) :: uint32"
  from assms obtain s2 where run: "rotate_loop (millis ?s1) D ?sd 0 ?s1 = Some s2"
    and s': "s' = s2\<lparr>ENABLE_PIN := True\<rparr>"
    by (auto simp: rotateForTime_def Let_def)
  from rotate_loop_frame [OF run] obtain n k b where
    s2: "s2 = ?s1\<lparr>pulses := replicate n (DIR_PIN ?s1, period 1 ?sd) @ pulses ?s1,
                  clock := clock ?s1 + n * period 1 ?sd,
                  ir_in := drop k (ir_in ?s1), stopRequested := b\<rparr>"
    by blast
  have "s' = s\<lparr>ENABLE_PIN := True, DIR_PIN := cw,
                      pulses := replicate n (cw, 1666) @ pulses s,
                      clock := clock s + n * 1666,
                      ir_in := drop k (ir_in s),
                      stopRequested := b\<rparr>"
    by (simp add: s' s2 period_main)
  moreover have "b \<or> \<not> ms_of (clock s + n * 1666) - millis s < D"
    using rotate_loop_exit [OF run] by (simp add: s2 millis_def ms_of_def period_main)
  moreover have "no_stop_pending IR_KEY_SHUTDOWN s \<longrightarrow> b = stopRequested s"
    using rotate_loop_no_stop [OF run] by (simp add: s2 no_stop_pending_def)
  ultimately show ?thesis by blast
qed

lemma rotateForTime_stopped:
  "stopRequested s \<Longrightarrow> rotateForTime D cw s = Some (s\<lparr>ENABLE_PIN := True, DIR_PIN := cw\<rparr>)"
  by (simp add: rotateForTime_def rotate_loop_done Let_def)

lemma rollUpCurtain_eq:
  "rollUpCurtain s =
     map_option
       (\<lambda>s2. (if \<not> stopRequested s2
              then s2\<lparr>motorRunning := False, isFullyRolledUp := True, isFullyRolledDown := False\<rparr>
              else s2\<lparr>motorRunning := False\<rparr>)\<lparr>stopRequested := False\<rparr>)
       (rotateForTime (CURTAIN_TIME s) (isNormalDirection s)
          (s\<lparr>motorRunning := True, stopRequested := False\<rparr>))"
  by (simp add: rollUpCurtain_def Let_def cong: if_cong)

lemma layDownCurtain_eq:
  "layDownCurtain s =
     map_option
       (\<lambda>s2. (if \<not> stopRequested s2
              then s2\<lparr>motorRunning := False, isFullyRolledDown := True, isFullyRolledUp := False\<rparr>
              else s2\<lparr>motorRunning := False\<rparr>)\<lparr>stopRequested := False\<rparr>)
       (rotateForTime (CURTAIN_TIME s) (\<not> isNormalDirection s)
          (s\<lparr>motorRunning := True, stopRequested := False\<rparr>))"
  by (simp add: layDownCurtain_def Let_def cong: if_cong)

lemma rollUpCurtain_frame:
  assumes "rollUpCurtain s = Some s'"
  shows "\<exists>n k b. s' = s\<lparr>motorRunning := False, stopRequested := False, ENABLE_PIN := True,
                      DIR_PIN := isNormalDirection s,
                      pulses := replicate n (isNormalDirection s, 1666) @ pulses s,
                      clock := clock s + n * 1666,
                      ir_in := drop k (ir_in s),
                      isFullyRolledUp := (if b then isFullyRolledUp s else True),
                      isFullyRolledDown := (if b then isFullyRolledDown s else False)\<rparr> \<and>
          (b \<or> \<not> ms_of (clock s + n * 1666) - millis s < CURTAIN_TIME s) \<and>
          (no_stop_pending IR_KEY_SHUTDOWN s \<longrightarrow> \<not> b)"
proof -
  let ?s1 = "s\<lparr>motorRunning := True, stopRequested := False\<rparr>"
  from assms obtain s2 where run: "rotateForTime (CURTAIN_TIME s) (isNormalDirection s) ?s1 = Some s2"
    and s': "s' = (if \<not> stopRequested s2
                   then s2\<lparr>motorRunning := False, isFullyRolledUp := True, isFullyRolledDown := False\<rparr>
                   else s2\<lparr>motorRunning := False\<rparr>)\<lparr>stopRequested := False\<rparr>"
    unfolding rollUpCurtain_eq by blast
  from rotateForTime_frame [OF run] obtain n k b where
    s2: "s2 = ?s1\<lparr>ENABLE_PIN := True, DIR_PIN := isNormalDirection s,
                      pulses := replicate n (isNormalDirection s, 1666) @ pulses ?s1,
                      clock := clock ?s1 + n * 1666,
                      ir_in := drop k (ir_in ?s1),
                      stopRequested := b\<rparr>"
    and b: "b \<or> \<not> ms_of (clock ?s1 + n * 1666) - millis ?s1 < CURTAIN_TIME s"
      "no_stop_pending IR_KEY_SHUTDOWN ?s1 \<longrightarrow> b = stopRequested ?s1"
    by blast
  have "s' = s\<lparr>motorRunning := False, stopRequested := False, ENABLE_PIN := True,
                      DIR_PIN := isNormalDirection s,
                      pulses := replicate n (isNormalDirection s, 1666) @ pulses s,
                      clock := clock s + n * 1666,
                      ir_in := drop k (ir_in s),
                      isFullyRolledUp := (if b then isFullyRolledUp s else True),
                      isFullyRolledDown := (if b then isFullyRolledDown s else False)\<rparr>"
    unfolding s' s2 by (cases b) simp_all
  moreover have "b \<or> \<not> ms_of (clock s + n * 1666) - millis s < CURTAIN_TIME s"
    using b(1) by (simp add: millis_def)
  moreover have "no_stop_pending IR_KEY_SHUTDOWN s \<longrightarrow> \<not> b"
    using b(2) by (simp add: no_stop_pending_def)
  ultimately show ?thesis by blast
qed


lemma layDownCurtain_frame:
  assumes "layDownCurtain s = Some s'"
  shows "\<exists>n k b. s' = s\<lparr>motorRunning := False, stopRequested := False, ENABLE_PIN := True,
                      DIR_PIN := (\<not> isNormalDirection s),
                      pulses := replicate n (\<not> isNormalDirection s, 1666) @ pulses s,
                      clock := clock s + n * 1666,
                      ir_in := drop k (ir_in s),
                      isFullyRolledDown := (if b then isFullyRolledDown s else True),
                      isFullyRolledUp := (if b then isFullyRolledUp s else False)\<rparr> \<and>
          (b \<or> \<not> ms_of (clock s + n * 1666) - millis s < CURTAIN_TIME s) \<and>
          (no_stop_pending IR_KEY_SHUTDOWN s \<longrightarrow> \<not> b)"
proof -
  let ?s1 = "s\<lparr>motorRunning := True, stopRequested := False\<rparr>"
  from assms obtain s2 where run: "rotateForTime (CURTAIN_TIME s) (\<not> isNormalDirection s) ?s1 = Some s2"
    and s': "s' = (if \<not> stopRequested s2
                   then s2\<lparr>motorRunning := False, isFullyRolledDown := True, isFullyRolledUp := False\<rparr>
                   else s2\<lparr>motorRunning := False\<rparr>)\<lparr>stopRequested := False\<rparr>"
    unfolding layDownCurtain_eq by blast
  from rotateForTime_frame [OF run] obtain n k b where
    s2: "s2 = ?s1\<lparr>ENABLE_PIN := True, DIR_PIN := (\<not> isNormalDirection s),
                      pulses := replicate n (\<not> isNormalDirection s, 1666) @ pulses ?s1,
                      clock := clock ?s1 + n * 1666,
                      ir_in := drop k (ir_in ?s1),
                      stopRequested := b\<rparr>"
    and b: "b \<or> \<not> ms_of (clock ?s1 + n * 1666) - millis ?s1 < CURTAIN_TIME s"
      "no_stop_pending IR_KEY_SHUTDOWN ?s1 \<longrightarrow> b = stopRequested ?s1"
    by blast
  have "s' = s\<lparr>motorRunning := False, stopRequested := False, ENABLE_PIN := True,
                      DIR_PIN := (\<not> isNormalDirection s),
                      pulses := replicate n (\<not> isNormalDirection s, 1666) @ pulses s,
                      clock := clock s + n * 1666,
                      ir_in := drop k (ir_in s),
                      isFullyRolledDown := (if b then isFullyRolledDown s else True),
                      isFullyRolledUp := (if b then isFullyRolledUp s else False)\<rparr>"
    unfolding s' s2 by (cases b) simp_all
  moreover have "b \<or> \<not> ms_of (clock s + n * 1666) - millis s < CURTAIN_TIME s"
    using b(1) by (simp add: millis_def)
  moreover have "no_stop_pending IR_KEY_SHUTDOWN s \<longrightarrow> \<not> b"
    using b(2) by (simp add: no_stop_pending_def)
  ultimately show ?thesis by blast
qed

lemma rollUpCurtain_returns:
  "CURTAIN_TIME s \<noteq> - 1 \<Longrightarrow> \<exists>s'. rollUpCurtain s = Some s'"
  using rotateForTime_returns [of "CURTAIN_TIME s"] by (simp add: rollUpCurtain_eq)

lemma layDownCurtain_returns:
  "CURTAIN_TIME s \<noteq> - 1 \<Longrightarrow> \<exists>s'. layDownCurtain s = Some s'"
  using rotateForTime_returns [of "CURTAIN_TIME s"] by (simp add: layDownCurtain_eq)

text \<open>The branches of the switch, one equation each.\<close>

lemma handleIRCommand_UP:
  "handleIRCommand IR_KEY_UP s =
     (if isFullyRolledUp s then Some (s\<lparr>serial_log := Handled IR_KEY_UP # serial_log s\<rparr>)
      else rollUpCurtain (s\<lparr>serial_log := Handled IR_KEY_UP # serial_log s,
                            isFullyRolledDown := False, isFullyRolledUp := False\<rparr>))"
  by (simp add: handleIRCommand_def Let_def)

lemma handleIRCommand_DOWN:
  "handleIRCommand IR_KEY_DOWN s =
     (if isFullyRolledDown s then Some (s\<lparr>serial_log := Handled IR_KEY_DOWN # serial_log s\<rparr>)
      else layDownCurtain (s\<lparr>serial_log := Handled IR_KEY_DOWN # serial_log s,
                            isFullyRolledDown := False, isFullyRolledUp := False\<rparr>))"
  by (simp add: handleIRCommand_def Let_def ir_keys)

lemma handleIRCommand_LEFT:
  "handleIRCommand IR_KEY_LEFT s =
     rotateForTime SIDE_KEY_TIME (isNormalDirection s)
       (s\<lparr>serial_log := Handled IR_KEY_LEFT # serial_log s,
          isFullyRolledUp := False, isFullyRolledDown := False\<rparr>)"
  by (simp add: handleIRCommand_def Let_def ir_keys cong: if_cong)

lemma handleIRCommand_RIGHT:
  "handleIRCommand IR_KEY_RIGHT s =
     rotateForTime SIDE_KEY_TIME (\<not> isNormalDirection s)
       (s\<lparr>serial_log := Handled IR_KEY_RIGHT # serial_log s,
          isFullyRolledUp := False, isFullyRolledDown := False\<rparr>)"
  by (simp add: handleIRCommand_def Let_def ir_keys cong: if_cong)

lemma handleIRCommand_SET:
  "handleIRCommand IR_KEY_SET s =
     Some (handleSetKey (s\<lparr>serial_log := Handled IR_KEY_SET # serial_log s\<rparr>))"
  by (simp add: handleIRCommand_def Let_def ir_keys)

lemma handleIRCommand_SHUTDOWN:
  "handleIRCommand IR_KEY_SHUTDOWN s =
     Some (handleShutdownKey (s\<lparr>serial_log := Handled IR_KEY_SHUTDOWN # serial_log s\<rparr>))"
  by (simp add: handleIRCommand_def Let_def ir_keys)

lemma handleIRCommand_DIRECTION:
  "handleIRCommand IR_KEY_DIRECTION s =
     Some (handleDirectionKey (s\<lparr>serial_log := Handled IR_KEY_DIRECTION # serial_log s\<rparr>))"
  by (simp add: handleIRCommand_def Let_def ir_keys)

lemma handleIRCommand_other:
  "c \<notin> {IR_KEY_UP, IR_KEY_DOWN, IR_KEY_LEFT, IR_KEY_RIGHT, IR_KEY_SET, IR_KEY_SHUTDOWN,
        IR_KEY_DIRECTION} \<Longrightarrow>
   handleIRCommand c s = Some (s\<lparr>serial_log := Handled c # serial_log s\<rparr>)"
  by (simp add: handleIRCommand_def Let_def)

lemma key_cases [case_names UP DOWN LEFT RIGHT SET SHUTDOWN DIRECTION other]:
  assumes "c = IR_KEY_UP \<Longrightarrow> P" "c = IR_KEY_DOWN \<Longrightarrow> P" "c = IR_KEY_LEFT \<Longrightarrow> P"
    "c = IR_KEY_RIGHT \<Longrightarrow> P" "c = IR_KEY_SET \<Longrightarrow> P" "c = IR_KEY_SHUTDOWN \<Longrightarrow> P"
    "c = IR_KEY_DIRECTION \<Longrightarrow> P"
    "c \<notin> {IR_KEY_UP, IR_KEY_DOWN, IR_KEY_LEFT, IR_KEY_RIGHT, IR_KEY_SET, IR_KEY_SHUTDOWN,
        IR_KEY_DIRECTION} \<Longrightarrow> P"
  shows P
  using assms by blast

lemma SIDE_KEY_TIME_not_max: "SIDE_KEY_TIME \<noteq> - 1"
  by (simp add: SIDE_KEY_TIME_def)

lemma handleIRCommand_returns:
  assumes "CURTAIN_TIME s \<noteq> - 1"
  shows "\<exists>s'. handleIRCommand c s = Some s'"
proof (cases c rule: key_cases)
  case UP
  then show ?thesis
    using assms rollUpCurtain_returns
    by (simp add: handleIRCommand_UP)
next
  case DOWN
  then show ?thesis
    using assms layDownCurtain_returns
    by (simp add: handleIRCommand_DOWN)
next
  case LEFT
  then show ?thesis
    using rotateForTime_returns [OF SIDE_KEY_TIME_not_max] by (simp add: handleIRCommand_LEFT)
next
  case RIGHT
  then show ?thesis
    using rotateForTime_returns [OF SIDE_KEY_TIME_not_max] by (simp add: handleIRCommand_RIGHT)
qed (simp_all add: handleIRCommand_SET handleIRCommand_SHUTDOWN handleIRCommand_DIRECTION
    handleIRCommand_other)

lemma handleSetKey_enter:
  "\<not> setMode s \<Longrightarrow>
   handleSetKey s = s\<lparr>setMode := True, timingInProgress := True, timingStart := millis s,
                       ENABLE_PIN := False, DIR_PIN := (\<not> isNormalDirection s),
                       motorRunning := True\<rparr>"
  by (simp add: handleSetKey_def Let_def cong: if_cong)

lemma handleSetKey_exit:
  "setMode s \<Longrightarrow>
   handleSetKey s = s\<lparr>ENABLE_PIN := True, motorRunning := False, timingInProgress := False,
                       CURTAIN_TIME := millis s - timingStart s,
                       eeprom_time := millis s - timingStart s,
                       isFullyRolledDown := True, isFullyRolledUp := False,
                       setMode := False\<rparr>"
  by (simp add: handleSetKey_def saveCurtainTime_def Let_def)

lemma handleDirectionKey_eq:
  "handleDirectionKey s =
     s\<lparr>isNormalDirection := \<not> isNormalDirection s,
       eeprom_dir := (if isNormalDirection s then 0 else 1)\<rparr>"
  by (cases "isNormalDirection s") (simp_all add: handleDirectionKey_def saveDirectionSetting_def)

lemma handleShutdownKey_abort:
  "setMode s \<Longrightarrow>
   handleShutdownKey s = s\<lparr>ENABLE_PIN := True, setMode := False, timingInProgress := False,
                            motorRunning := False\<rparr>"
  by (simp add: handleShutdownKey_def)

lemma handleShutdownKey_count:
  assumes "\<not> setMode s"
  shows "handleShutdownKey s =
     (if (if millis s - lastShutdownTime s < 2000 then shutdownCount s + 1 else 1) \<ge> 3
      then s\<lparr>shutdownCount := 0, lastShutdownTime := millis s,
              eeprom_time := 0, CURTAIN_TIME := DEFAULT_CURTAIN_TIME\<rparr>
      else s\<lparr>clock := clock s + 100000,
              shutdownCount := (if millis s - lastShutdownTime s < 2000
                                then shutdownCount s + 1 else 1),
              lastShutdownTime := millis s, stopRequested := True, ENABLE_PIN := True,
              motorRunning := False\<rparr>)"
  using assms
  by (simp add: handleShutdownKey_def clearCurtainTime_def stopMotor_def delay_def Let_def)

text \<open>What no handler touches, and what every handler keeps.\<close>

lemma handleIRCommand_keeps:
  assumes "handleIRCommand c s = Some s'"
  shows "serial_log s' = Handled c # serial_log s \<and>
         lastIRCommand s' = lastIRCommand s \<and> lastIRTime s' = lastIRTime s \<and>
         (\<not> (isFullyRolledUp s \<and> isFullyRolledDown s) \<longrightarrow>
            \<not> (isFullyRolledUp s' \<and> isFullyRolledDown s'))"
proof (cases c rule: key_cases)
  case UP
  show ?thesis
  proof (cases "isFullyRolledUp s")
    case True
    with assms UP show ?thesis by (auto simp: handleIRCommand_UP)
  next
    case False
    with assms UP have "rollUpCurtain (s\<lparr>serial_log := Handled IR_KEY_UP # serial_log s,
                            isFullyRolledDown := False, isFullyRolledUp := False\<rparr>) = Some s'"
      by (simp add: handleIRCommand_UP)
    from rollUpCurtain_frame [OF this] UP show ?thesis by (auto split: if_splits)
  qed
next
  case DOWN
  show ?thesis
  proof (cases "isFullyRolledDown s")
    case True
    with assms DOWN show ?thesis by (auto simp: handleIRCommand_DOWN)
  next
    case False
    with assms DOWN have "layDownCurtain (s\<lparr>serial_log := Handled IR_KEY_DOWN # serial_log s,
                            isFullyRolledDown := False, isFullyRolledUp := False\<rparr>) = Some s'"
      by (simp add: handleIRCommand_DOWN)
    from layDownCurtain_frame [OF this] DOWN show ?thesis by (auto split: if_splits)
  qed
next
  case LEFT
  with assms have "rotateForTime SIDE_KEY_TIME (isNormalDirection s)
       (s\<lparr>serial_log := Handled IR_KEY_LEFT # serial_log s,
          isFullyRolledUp := False, isFullyRolledDown := False\<rparr>) = Some s'"
    by (simp add: handleIRCommand_LEFT)
  from rotateForTime_frame [OF this] LEFT show ?thesis by auto
next
  case RIGHT
  with assms have "rotateForTime SIDE_KEY_TIME (\<not> isNormalDirection s)
       (s\<lparr>serial_log := Handled IR_KEY_RIGHT # serial_log s,
          isFullyRolledUp := False, isFullyRolledDown := False\<rparr>) = Some s'"
    by (simp add: handleIRCommand_RIGHT)
  from rotateForTime_frame [OF this] RIGHT show ?thesis by auto
next
  case SET
  with assms show ?thesis
    by (cases "setMode s") (auto simp: handleIRCommand_SET handleSetKey_enter handleSetKey_exit)
next
  case SHUTDOWN
  with assms show ?thesis
    by (cases "setMode s")
      (auto simp: handleIRCommand_SHUTDOWN handleShutdownKey_abort handleShutdownKey_count
        split: if_splits)
next
  case DIRECTION
  with assms show ?thesis
    by (auto simp: handleIRCommand_DIRECTION handleDirectionKey_eq)
next
  case other
  with assms show ?thesis by (auto simp: handleIRCommand_other)
qed

section \<open>The debounce filter\<close>

lemma loop_idle_keeps:
  "serial_log (loop_idle s) = serial_log s" "lastIRCommand (loop_idle s) = lastIRCommand s"
  "lastIRTime (loop_idle s) = lastIRTime s"
  "isFullyRolledUp (loop_idle s) = isFullyRolledUp s"
  "isFullyRolledDown (loop_idle s) = isFullyRolledDown s"
  "stopRequested (loop_idle s) = stopRequested s"
  by (simp_all add: loop_idle_def delay_def Let_def)

lemma loop_motion_keeps:
  "serial_log (loop_motion s) = serial_log s" "lastIRCommand (loop_motion s) = lastIRCommand s"
  "lastIRTime (loop_motion s) = lastIRTime s"
  "isFullyRolledUp (loop_motion s) = isFullyRolledUp s"
  "isFullyRolledDown (loop_motion s) = isFullyRolledDown s"
  "stopRequested (loop_motion s) = stopRequested s"
  by (simp_all add: loop_motion_def loop_idle_keeps step_pulse_eq ir_next_def Let_def
      split: option.split)

lemma accept_keeps:
  assumes "accept f t s = Some s'"
  shows "serial_log s' = Handled (command f) # serial_log s"
    "lastIRCommand s' = command f" "lastIRTime s' = t"
    "\<not> (isFullyRolledUp s \<and> isFullyRolledDown s) \<Longrightarrow>
       \<not> (isFullyRolledUp s' \<and> isFullyRolledDown s')"
proof -
  from assms obtain s1 where h: "handleIRCommand (command f) s = Some s1"
    and s': "s' = s1\<lparr>lastIRCommand := command f, lastIRTime := t\<rparr>"
    by (auto simp: accept_def)
  from handleIRCommand_keeps [OF h] show "serial_log s' = Handled (command f) # serial_log s"
    "lastIRCommand s' = command f" "lastIRTime s' = t"
    "\<not> (isFullyRolledUp s \<and> isFullyRolledDown s) \<Longrightarrow>
       \<not> (isFullyRolledUp s' \<and> isFullyRolledDown s')"
    by (simp_all add: s')
qed

lemma accept_returns:
  "CURTAIN_TIME s \<noteq> - 1 \<Longrightarrow> \<exists>s'. accept f t s = Some s'"
  using handleIRCommand_returns [of s "command f"] by (auto simp: accept_def)

lemma ir_next_fields [simp]:
  "millis (ir_next s) = millis s" "setMode (ir_next s) = setMode s"
  "motorRunning (ir_next s) = motorRunning s" "lastIRCommand (ir_next s) = lastIRCommand s"
  "lastIRTime (ir_next s) = lastIRTime s" "serial_log (ir_next s) = serial_log s"
  "CURTAIN_TIME (ir_next s) = CURTAIN_TIME s"
  "isFullyRolledUp (ir_next s) = isFullyRolledUp s"
  "isFullyRolledDown (ir_next s) = isFullyRolledDown s"
  by (simp_all add: millis_def ir_next_def)

lemma loop_normal:
  assumes "decoded s = Some f" "address f = IR_ADDRESS" "\<not> setMode s"
  shows "loop s =
     map_option loop_motion
       (if command f \<noteq> 0xFFFFFFFF \<and>
           (command f \<noteq> lastIRCommand s \<or> 200 < millis s - lastIRTime s \<or>
            motorRunning s \<and> valid_stop IR_KEY_SHUTDOWN f)
        then accept f (millis s) (ir_next s)
        else Some ((ir_next s)\<lparr>serial_log :=
               (if command f = 0xFFFFFFFF then InvalidIgnored else DuplicateIgnored)
                 # serial_log s\<rparr>))"
  using assms
  by (auto simp: loop_def Let_def IR_DEBOUNCE_TIME_def)

lemma loop_set_mode:
  assumes "decoded s = Some f" "address f = IR_ADDRESS" "setMode s"
  shows "loop s =
       (if (command f = IR_KEY_SET \<or> command f = IR_KEY_SHUTDOWN) \<and> protocol f \<noteq> 0 \<and>
           (command f \<noteq> lastIRCommand s \<or> 1000 < millis s - lastIRTime s)
        then accept f (millis s) (ir_next s)
        else if (command f = IR_KEY_SET \<or> command f = IR_KEY_SHUTDOWN) \<and> protocol f \<noteq> 0
        then Some ((ir_next s)\<lparr>serial_log := SetModeDuplicateIgnored # serial_log s\<rparr>)
        else Some (ir_next s))"
  using assms
  by (auto simp: loop_def Let_def SET_MODE_DEBOUNCE_TIME_def ir_keys)

lemma loop_no_frame: "decoded s = None \<Longrightarrow> loop s = Some (loop_motion (ir_next s))"
  by (simp add: loop_def)

lemma loop_foreign: "decoded s = Some f \<Longrightarrow> address f \<noteq> IR_ADDRESS \<Longrightarrow> loop s = Some (ir_next s)"
  by (simp add: loop_def Let_def)

text \<open>
  Claim C2, as the code has it. A frame of the configured address is accepted, that is
  handed to \<^verbatim>\<open>handleIRCommand\<close>, in normal mode exactly when its code is not the invalid
  code \<open>0xFFFFFFFF\<close> and either differs from the last accepted code, or more than 200 ms
  have passed since the last acceptance, or the motor-running flag is set and the frame
  is a valid stop. In set mode it is accepted exactly when its code is the set key or
  the stop key, its protocol is not 0, and its code differs from the last accepted one or
  more than 1000 ms have passed; every other code is dropped before the window is looked
  at. An accepted frame sets the last code and the last acceptance time, a rejected one
  leaves them. The call returns whenever the travel duration is not \<open>0xFFFFFFFF\<close>.
\<close>

theorem debounce_filter:
  assumes "decoded s = Some f" and "address f = IR_ADDRESS"
  shows "(CURTAIN_TIME s \<noteq> - 1 \<longrightarrow> (\<exists>s'. loop s = Some s')) \<and>
         (\<forall>s'. loop s = Some s' \<longrightarrow>
            (\<not> setMode s \<longrightarrow>
               (serial_log s' = Handled (command f) # serial_log s \<longleftrightarrow>
                  command f \<noteq> 0xFFFFFFFF \<and>
                  (command f \<noteq> lastIRCommand s \<or> 200 < millis s - lastIRTime s \<or>
                   motorRunning s \<and> valid_stop IR_KEY_SHUTDOWN f))) \<and>
            (setMode s \<longrightarrow>
               (serial_log s' = Handled (command f) # serial_log s \<longleftrightarrow>
                  (command f = IR_KEY_SET \<or> command f = IR_KEY_SHUTDOWN) \<and> protocol f \<noteq> 0 \<and>
                  (command f \<noteq> lastIRCommand s \<or> 1000 < millis s - lastIRTime s))) \<and>
            (if serial_log s' = Handled (command f) # serial_log s
             then lastIRCommand s' = command f \<and> lastIRTime s' = millis s
             else lastIRCommand s' = lastIRCommand s \<and> lastIRTime s' = lastIRTime s))"
proof (intro conjI impI allI)
  assume "CURTAIN_TIME s \<noteq> - 1"
  then obtain s1 where "accept f (millis s) (ir_next s) = Some s1"
    using accept_returns [of "ir_next s" f "millis s"] by auto
  then show "\<exists>s'. loop s = Some s'"
    by (cases "setMode s") (auto simp: loop_normal [OF assms] loop_set_mode [OF assms])
next
  fix s' assume run: "loop s = Some s'" and n: "\<not> setMode s"
  let ?A = "command f \<noteq> 0xFFFFFFFF \<and>
                  (command f \<noteq> lastIRCommand s \<or> 200 < millis s - lastIRTime s \<or>
                   motorRunning s \<and> valid_stop IR_KEY_SHUTDOWN f)"
  show "serial_log s' = Handled (command f) # serial_log s \<longleftrightarrow> ?A"
  proof (cases ?A)
    case True
    with run obtain s1 where a: "accept f (millis s) (ir_next s) = Some s1"
      and s': "s' = loop_motion s1"
      unfolding loop_normal [OF assms n] by auto
    from accept_keeps(1) [OF a] True show ?thesis by (simp add: s' loop_motion_keeps)
  next
    case False
    with run show ?thesis
      unfolding loop_normal [OF assms n] by (auto simp: loop_motion_keeps split: if_splits)
  qed
next
  fix s' assume run: "loop s = Some s'" and n: "setMode s"
  let ?A = "(command f = IR_KEY_SET \<or> command f = IR_KEY_SHUTDOWN) \<and> protocol f \<noteq> 0 \<and>
                  (command f \<noteq> lastIRCommand s \<or> 1000 < millis s - lastIRTime s)"
  show "serial_log s' = Handled (command f) # serial_log s \<longleftrightarrow> ?A"
  proof (cases ?A)
    case True
    with run have a: "accept f (millis s) (ir_next s) = Some s'"
      unfolding loop_set_mode [OF assms n] by simp
    from accept_keeps(1) [OF a] True show ?thesis by simp
  next
    case False
    with run show ?thesis
      unfolding loop_set_mode [OF assms n] by (auto split: if_splits)
  qed
next
  fix s' assume run: "loop s = Some s'"
  show "if serial_log s' = Handled (command f) # serial_log s
        then lastIRCommand s' = command f \<and> lastIRTime s' = millis s
        else lastIRCommand s' = lastIRCommand s \<and> lastIRTime s' = lastIRTime s"
  proof (cases "setMode s")
    case n: False
    show ?thesis
    proof (cases "command f \<noteq> 0xFFFFFFFF \<and>
                  (command f \<noteq> lastIRCommand s \<or> 200 < millis s - lastIRTime s \<or>
                   motorRunning s \<and> valid_stop IR_KEY_SHUTDOWN f)")
      case True
      with run obtain s1 where a: "accept f (millis s) (ir_next s) = Some s1"
        and s': "s' = loop_motion s1"
        unfolding loop_normal [OF assms n] by auto
      from accept_keeps(1-3) [OF a] show ?thesis by (simp add: s' loop_motion_keeps)
    next
      case False
      with run show ?thesis
        unfolding loop_normal [OF assms n] by (auto simp: loop_motion_keeps split: if_splits)
    qed
  next
    case n: True
    show ?thesis
    proof (cases "(command f = IR_KEY_SET \<or> command f = IR_KEY_SHUTDOWN) \<and> protocol f \<noteq> 0 \<and>
                  (command f \<noteq> lastIRCommand s \<or> 1000 < millis s - lastIRTime s)")
      case True
      with run have a: "accept f (millis s) (ir_next s) = Some s'"
        unfolding loop_set_mode [OF assms n] by simp
      from accept_keeps(1-3) [OF a] show ?thesis by simp
    next
      case False
      with run show ?thesis
        unfolding loop_set_mode [OF assms n] by (auto split: if_splits)
    qed
  qed
qed


lemmas example_defs = state_defs calibrating_example_def handleSetKey_def decoded_def

theorem debounce_filter_witness:
  "decoded (idle_example\<lparr>clock := 5000000, ir_in := [Some own_stop]\<rparr>) = Some own_stop \<and>
   address own_stop = IR_ADDRESS \<and>
   (\<exists>s'. loop (idle_example\<lparr>clock := 5000000, ir_in := [Some own_stop]\<rparr>) = Some s' \<and>
         serial_log s' = [Handled 5] \<and> lastIRCommand s' = 5 \<and> lastIRTime s' = 5000)"
proof -
  let ?s = "idle_example\<lparr>clock := 5000000, ir_in := [Some own_stop]\<rparr>"
  have d: "decoded ?s = Some own_stop" by (simp add: decoded_def)
  have a: "address own_stop = IR_ADDRESS" by (simp add: own_stop_def IR_ADDRESS_def)
  have c: "CURTAIN_TIME ?s \<noteq> - 1" by (simp add: state_defs)
  have v: "\<not> setMode ?s" "serial_log ?s = []" "lastIRCommand ?s = 0" "millis ?s = 5000"
    "command own_stop = 5"
    by (simp_all add: state_defs own_stop_def millis_def)
  from debounce_filter [OF d a] c obtain s' where run: "loop ?s = Some s'" by blast
  with debounce_filter [OF d a] v
  have "serial_log s' = [Handled 5] \<and> lastIRCommand s' = 5 \<and> lastIRTime s' = 5000"
    by (auto split: if_splits)
  with run d a show ?thesis by blast
qed

text \<open>
  A frame with the invalid code differs from the last accepted code and comes five
  seconds after it, and is rejected all the same.
\<close>

theorem debounce_sentinel_counterexample:
  "command invalid_frame \<noteq> lastIRCommand (idle_example\<lparr>clock := 5000000\<rparr>) \<and>
   200 < millis (idle_example\<lparr>clock := 5000000\<rparr>) - lastIRTime (idle_example\<lparr>clock := 5000000\<rparr>) \<and>
   \<not> setMode (idle_example\<lparr>clock := 5000000\<rparr>) \<and>
   map_option serial_log
     (loop (idle_example\<lparr>clock := 5000000, ir_in := [Some invalid_frame]\<rparr>)) =
     Some [InvalidIgnored] \<and>
   map_option lastIRCommand
     (loop (idle_example\<lparr>clock := 5000000, ir_in := [Some invalid_frame]\<rparr>)) =
     Some 0 \<and>
   map_option lastIRTime
     (loop (idle_example\<lparr>clock := 5000000, ir_in := [Some invalid_frame]\<rparr>)) =
     Some 0"
proof -
  let ?s = "idle_example\<lparr>clock := 5000000, ir_in := [Some invalid_frame]\<rparr>"
  have d: "decoded ?s = Some invalid_frame" by (simp add: decoded_def)
  have a: "address invalid_frame = IR_ADDRESS" by (simp add: invalid_frame_def IR_ADDRESS_def)
  have v: "\<not> setMode ?s" "serial_log ?s = []" "lastIRCommand ?s = 0" "lastIRTime ?s = 0"
    "command invalid_frame = 0xFFFFFFFF"
    by (simp_all add: state_defs invalid_frame_def)
  show ?thesis
    by (simp add: loop_normal [OF d a v(1)] v loop_motion_keeps)
       (simp add: state_defs invalid_frame_def millis_def ms_of_def)
qed

section \<open>The stop-press counter\<close>



lemma idle_example_fields:
  "\<not> setMode idle_example" "shutdownCount idle_example = 0"
  "lastShutdownTime idle_example = 0" "eeprom_time idle_example = 7000"
  "CURTAIN_TIME idle_example = 7000"
  by (simp_all add: state_defs)



section \<open>The position hints\<close>

lemma loop_flags:
  assumes "loop s = Some s'" and "\<not> (isFullyRolledUp s \<and> isFullyRolledDown s)"
  shows "\<not> (isFullyRolledUp s' \<and> isFullyRolledDown s')"
proof (cases "decoded s")
  case None
  with assms show ?thesis by (auto simp: loop_no_frame loop_motion_keeps)
next
  case (Some f)
  show ?thesis
  proof (cases "address f = IR_ADDRESS")
    case False
    with assms Some show ?thesis by (auto simp: loop_foreign)
  next
    case a: True
    have inv: "\<not> (isFullyRolledUp (ir_next s) \<and> isFullyRolledDown (ir_next s))"
      using assms(2) by simp
    show ?thesis
    proof (cases "setMode s")
      case True
      from assms(1) show ?thesis
        unfolding loop_set_mode [OF Some a True]
        using accept_keeps(4) [OF _ inv] assms(2)
        by (auto split: if_splits)
    next
      case False
      from assms(1) show ?thesis
        unfolding loop_normal [OF Some a False]
        using accept_keeps(4) [OF _ inv] assms(2)
        by (auto simp: loop_motion_keeps split: if_splits)
    qed
  qed
qed

text \<open>
  Claim C8: in every state the dispatcher can reach, at most one of the two position
  hints is set.
\<close>

theorem position_hints_exclusive:
  assumes "reachable s"
  shows "\<not> (isFullyRolledUp s \<and> isFullyRolledDown s)"
  using assms
proof (induction rule: reachable.induct)
  case (boot et ed irs)
  show ?case by (simp add: setup_sketch_def Let_def)
next
  case (pass s d)
  then show ?case by simp
next
  case (iter s s')
  then show ?case using loop_flags by blast
qed


lemma down_example_run:
  "\<exists>s. loop (setup_sketch (power_on 3 1 [Some down_frame])) = Some s \<and> isFullyRolledDown s"
proof -
  let ?s0 = "setup_sketch (power_on 3 1 [Some down_frame])"
  let ?s1 = "(ir_next ?s0)\<lparr>serial_log := Handled IR_KEY_DOWN # serial_log (ir_next ?s0),
                            isFullyRolledDown := False, isFullyRolledUp := False\<rparr>"
  have d: "decoded ?s0 = Some down_frame" by (simp add: state_defs decoded_def)
  have a: "address down_frame = IR_ADDRESS" by (simp add: down_frame_def IR_ADDRESS_def)
  have k: "command down_frame = IR_KEY_DOWN" by (simp add: down_frame_def IR_KEY_DOWN_def)
  have v: "\<not> setMode ?s0" "lastIRCommand ?s0 = 0" "\<not> isFullyRolledDown ?s0"
    by (simp_all add: state_defs)
  have c: "CURTAIN_TIME ?s1 \<noteq> - 1" by (simp add: state_defs ir_next_def)
  have q: "no_stop_pending IR_KEY_SHUTDOWN ?s1"
    by (simp add: no_stop_pending_def state_defs ir_next_def)
  from layDownCurtain_returns [OF c] obtain s2 where r: "layDownCurtain ?s1 = Some s2" by blast
  from layDownCurtain_frame [OF r] q have f: "isFullyRolledDown s2" by auto
  have acc: "command down_frame \<noteq> 0xFFFFFFFF \<and>
           (command down_frame \<noteq> lastIRCommand ?s0 \<or> 200 < millis ?s0 - lastIRTime ?s0 \<or>
            motorRunning ?s0 \<and> valid_stop IR_KEY_SHUTDOWN down_frame)"
    by (simp add: v k IR_KEY_DOWN_def)
  have h: "handleIRCommand IR_KEY_DOWN (ir_next ?s0) = Some s2"
    using r v by (simp add: handleIRCommand_DOWN)
  have "loop ?s0 = Some (loop_motion (s2\<lparr>lastIRCommand := command down_frame,
                                           lastIRTime := millis ?s0\<rparr>))"
    unfolding loop_normal [OF d a v(1)] using acc h by (simp add: accept_def k)
  with f show ?thesis by (simp add: loop_motion_keeps)
qed

theorem position_hints_exclusive_witness:
  "\<exists>s. loop (setup_sketch (power_on 3 1 [Some down_frame])) = Some s \<and> reachable s \<and>
       isFullyRolledDown s \<and> \<not> isFullyRolledUp s"
proof -
  from down_example_run obtain s where
    run: "loop (setup_sketch (power_on 3 1 [Some down_frame])) = Some s"
    and d: "isFullyRolledDown s" by blast
  have r: "reachable s" using reachable.boot run by (rule reachable.iter)
  from position_hints_exclusive [OF r] d run r show ?thesis by blast
qed

section \<open>Direction of the nudge and of the full roll\<close>

lemma rotateForTime_moves:
  assumes "\<not> stopRequested s" and "D \<noteq> 0" and "rotateForTime D cw s = Some s'"
  shows "\<exists>n. pulses s' = replicate (Suc n) (cw, 1666) @ pulses s"
proof -
  let ?s1 = "s\<lparr>ENABLE_PIN := False, DIR_PIN := cw\<rparr>"
  let ?sd = "word_of_int (1000000 div speed) :: uint32"
  from assms(3) obtain s2 where run: "rotate_loop (millis ?s1) D ?sd 0 ?s1 = Some s2"
    and s': "s' = s2\<lparr>ENABLE_PIN := True\<rparr>"
    by (auto simp: rotateForTime_def Let_def)
  have "millis ?s1 - millis ?s1 < D" using assms(2) by (simp add: word_greater_zero_iff)
  with assms(1) run have "rotate_loop (millis ?s1) D ?sd (Suc 0) (step_pulse 1 ?sd ?s1) = Some s2"
    by (simp add: rotate_loop_step Let_def)
  from rotate_loop_frame [OF this] obtain n where
    "pulses s2 = replicate n (cw, 1666) @ (cw, 1666) # pulses s"
    by (auto simp: step_pulse_eq period_main)
  then have "pulses s' = replicate (Suc n) (cw, 1666) @ pulses s"
    by (simp add: s' replicate_app_Cons_same)
  then show ?thesis by blast
qed




section \<open>The stop flag after a press while idle\<close>

lemma handleIRCommand_stopped:
  assumes "stopRequested s" and "c \<noteq> IR_KEY_UP" and "c \<noteq> IR_KEY_DOWN"
  shows "\<exists>s'. handleIRCommand c s = Some s' \<and> stopRequested s' \<and> pulses s' = pulses s"
proof (cases c rule: key_cases)
  case LEFT
  with assms(1) show ?thesis by (simp add: handleIRCommand_LEFT rotateForTime_stopped)
next
  case RIGHT
  with assms(1) show ?thesis by (simp add: handleIRCommand_RIGHT rotateForTime_stopped)
next
  case SET
  with assms(1) show ?thesis
    by (cases "setMode s") (simp_all add: handleIRCommand_SET handleSetKey_enter handleSetKey_exit)
next
  case SHUTDOWN
  with assms(1) show ?thesis
    by (cases "setMode s")
      (simp_all add: handleIRCommand_SHUTDOWN handleShutdownKey_abort handleShutdownKey_count)
next
  case DIRECTION
  with assms(1) show ?thesis by (simp add: handleIRCommand_DIRECTION handleDirectionKey_eq)
next
  case other
  with assms(1) show ?thesis by (simp add: handleIRCommand_other)
qed (use assms in simp_all)

lemma rollUpCurtain_resets:
  "rollUpCurtain (s\<lparr>stopRequested := b\<rparr>) = rollUpCurtain (s\<lparr>stopRequested := False\<rparr>)"
  by (simp add: rollUpCurtain_eq)

lemma layDownCurtain_resets:
  "layDownCurtain (s\<lparr>stopRequested := b\<rparr>) = layDownCurtain (s\<lparr>stopRequested := False\<rparr>)"
  by (simp add: layDownCurtain_eq)

lemma accept_stopped:
  assumes "stopRequested s" and "command f \<noteq> IR_KEY_UP" and "command f \<noteq> IR_KEY_DOWN"
    and "accept f t s = Some s'"
  shows "stopRequested s'"
  using handleIRCommand_stopped [OF assms(1-3)] assms(4) by (auto simp: accept_def)

lemma loop_stopped:
  assumes "stopRequested s" and "loop s = Some s'"
    and "\<forall>f. decoded s = Some f \<longrightarrow> command f \<noteq> IR_KEY_UP \<and> command f \<noteq> IR_KEY_DOWN"
  shows "stopRequested s'"
proof (cases "decoded s")
  case None
  with assms show ?thesis by (auto simp: loop_no_frame loop_motion_keeps)
next
  case (Some f)
  with assms(3) have k: "command f \<noteq> IR_KEY_UP" "command f \<noteq> IR_KEY_DOWN" by auto
  have st: "stopRequested (ir_next s)" using assms(1) by simp
  show ?thesis
  proof (cases "address f = IR_ADDRESS")
    case False
    with assms Some show ?thesis by (auto simp: loop_foreign)
  next
    case a: True
    show ?thesis
    proof (cases "setMode s")
      case True
      from assms(2) show ?thesis
        unfolding loop_set_mode [OF Some a True]
        using accept_stopped [OF st k] assms(1)
        by (auto split: if_splits)
    next
      case False
      from assms(2) show ?thesis
        unfolding loop_normal [OF Some a False]
        using accept_stopped [OF st k] assms(1)
        by (auto simp: loop_motion_keeps split: if_splits)
    qed
  qed
qed

text \<open>
  Claim C10: a press of the stop key handled outside set mode that does not complete the
  triple press sets the stop flag, and the flag stays set through every command other
  than the up and the down key, and through every call of \<^verbatim>\<open>loop\<close> that does not decode
  one of these two. While it is set, a nudge (left or right key) returns without a single
  step. \<^verbatim>\<open>rollUpCurtain\<close> and \<^verbatim>\<open>layDownCurtain\<close> clear the flag on entry, so they run as if
  it had not been set, and leave it cleared; with the flag cleared a nudge sends at least
  one step.
\<close>

theorem stop_flag_blocks_nudges:
  "(\<not> setMode s \<and>
      (if millis s - lastShutdownTime s < 2000 then shutdownCount s + 1 else 1) < 3 \<longrightarrow>
      stopRequested (handleShutdownKey s)) \<and>
   (stopRequested s \<and> c \<noteq> IR_KEY_UP \<and> c \<noteq> IR_KEY_DOWN \<longrightarrow>
      (\<exists>s'. handleIRCommand c s = Some s' \<and> stopRequested s' \<and> pulses s' = pulses s)) \<and>
   (stopRequested s \<and>
      (\<forall>f. decoded s = Some f \<longrightarrow> command f \<noteq> IR_KEY_UP \<and> command f \<noteq> IR_KEY_DOWN) \<longrightarrow>
      (\<forall>s'. loop s = Some s' \<longrightarrow> stopRequested s')) \<and>
   (stopRequested s \<longrightarrow>
      rollUpCurtain s = rollUpCurtain (s\<lparr>stopRequested := False\<rparr>) \<and>
      layDownCurtain s = layDownCurtain (s\<lparr>stopRequested := False\<rparr>)) \<and>
   (CURTAIN_TIME s \<noteq> - 1 \<longrightarrow>
      (\<exists>s'. rollUpCurtain s = Some s' \<and> \<not> stopRequested s') \<and>
      (\<exists>s'. layDownCurtain s = Some s' \<and> \<not> stopRequested s')) \<and>
   (\<not> stopRequested s \<and> (c = IR_KEY_LEFT \<or> c = IR_KEY_RIGHT) \<longrightarrow>
      (\<exists>s'. handleIRCommand c s = Some s' \<and> length (pulses s) < length (pulses s')))"
proof (intro conjI impI allI)
  fix s'
  assume "stopRequested s \<and>
      (\<forall>f. decoded s = Some f \<longrightarrow> command f \<noteq> IR_KEY_UP \<and> command f \<noteq> IR_KEY_DOWN)"
    and "loop s = Some s'"
  then show "stopRequested s'" using loop_stopped by blast
next
  assume "\<not> setMode s \<and>
      (if millis s - lastShutdownTime s < 2000 then shutdownCount s + 1 else 1) < 3"
  then show "stopRequested (handleShutdownKey s)"
    by (simp add: handleShutdownKey_count)
next
  assume "stopRequested s \<and> c \<noteq> IR_KEY_UP \<and> c \<noteq> IR_KEY_DOWN"
  then show "\<exists>s'. handleIRCommand c s = Some s' \<and> stopRequested s' \<and> pulses s' = pulses s"
    using handleIRCommand_stopped by blast
next
  show "rollUpCurtain s = rollUpCurtain (s\<lparr>stopRequested := False\<rparr>)"
    using rollUpCurtain_resets [where s = s and b = "stopRequested s"] by simp
  show "layDownCurtain s = layDownCurtain (s\<lparr>stopRequested := False\<rparr>)"
    using layDownCurtain_resets [where s = s and b = "stopRequested s"] by simp
next
  assume c: "CURTAIN_TIME s \<noteq> - 1"
  from rollUpCurtain_returns [OF c] obtain s' where r: "rollUpCurtain s = Some s'" by blast
  from rollUpCurtain_frame [OF r] have "\<not> stopRequested s'" by auto
  with r show "\<exists>s'. rollUpCurtain s = Some s' \<and> \<not> stopRequested s'" by blast
  from layDownCurtain_returns [OF c] obtain s' where r: "layDownCurtain s = Some s'" by blast
  from layDownCurtain_frame [OF r] have "\<not> stopRequested s'" by auto
  with r show "\<exists>s'. layDownCurtain s = Some s' \<and> \<not> stopRequested s'" by blast
next
  assume a: "\<not> stopRequested s \<and> (c = IR_KEY_LEFT \<or> c = IR_KEY_RIGHT)"
  let ?s1 = "s\<lparr>serial_log := Handled c # serial_log s,
          isFullyRolledUp := False, isFullyRolledDown := False\<rparr>"
  let ?cw = "if c = IR_KEY_LEFT then isNormalDirection s else \<not> isNormalDirection s"
  have ne: "IR_KEY_RIGHT \<noteq> IR_KEY_LEFT" by (simp add: ir_keys)
  have h: "handleIRCommand c s = rotateForTime SIDE_KEY_TIME ?cw ?s1"
    using a ne by (auto simp: handleIRCommand_LEFT handleIRCommand_RIGHT)
  from rotateForTime_returns [OF SIDE_KEY_TIME_not_max] obtain s' where
    r: "rotateForTime SIDE_KEY_TIME ?cw ?s1 = Some s'" by blast
  have "SIDE_KEY_TIME \<noteq> 0" by (simp add: SIDE_KEY_TIME_def)
  from rotateForTime_moves [OF _ this r] a obtain n where
    "pulses s' = replicate (Suc n) (?cw, 1666) @ pulses s" by auto
  then have "length (pulses s) < length (pulses s')" by simp
  with h r show "\<exists>s'. handleIRCommand c s = Some s' \<and> length (pulses s) < length (pulses s')"
    by simp
qed


theorem stop_flag_blocks_nudges_witness:
  "\<not> setMode (idle_example\<lparr>clock := 10000000\<rparr>) \<and>
   stopRequested stopped_example \<and>
   IR_KEY_LEFT \<noteq> IR_KEY_UP \<and> IR_KEY_LEFT \<noteq> IR_KEY_DOWN \<and>
   (\<exists>s'. handleIRCommand IR_KEY_LEFT stopped_example = Some s' \<and> stopRequested s' \<and>
         pulses s' = pulses stopped_example) \<and>
   CURTAIN_TIME stopped_example \<noteq> - 1 \<and>
   (\<exists>s'. rollUpCurtain stopped_example = Some s' \<and> \<not> stopRequested s' \<and>
      (\<exists>s''. handleIRCommand IR_KEY_LEFT s' = Some s'' \<and> length (pulses s') < length (pulses s'')))"
proof -
  let ?i = "idle_example\<lparr>clock := 10000000\<rparr>"
  have i: "\<not> setMode ?i"
    "(if millis ?i - lastShutdownTime ?i < 2000 then shutdownCount ?i + 1 else 1) < 3"
    by (simp_all add: idle_example_fields ms_of_def)
  have k: "IR_KEY_LEFT \<noteq> IR_KEY_UP" "IR_KEY_LEFT \<noteq> IR_KEY_DOWN" by (simp_all add: ir_keys)
  from stop_flag_blocks_nudges [of ?i] i
  have st: "stopRequested stopped_example" by (simp add: stopped_example_def)
  from stop_flag_blocks_nudges [of stopped_example IR_KEY_LEFT] st k
  have n: "\<exists>s'. handleIRCommand IR_KEY_LEFT stopped_example = Some s' \<and> stopRequested s' \<and>
         pulses s' = pulses stopped_example" by blast
  have c: "CURTAIN_TIME stopped_example \<noteq> - 1"
    by (simp add: stopped_example_def handleShutdownKey_count i idle_example_fields ms_of_def)
  from stop_flag_blocks_nudges [of stopped_example] c obtain s' where
    r: "rollUpCurtain stopped_example = Some s'" "\<not> stopRequested s'" by blast
  from stop_flag_blocks_nudges [of s' IR_KEY_LEFT] r(2)
  have "\<exists>s''. handleIRCommand IR_KEY_LEFT s' = Some s'' \<and> length (pulses s') < length (pulses s'')"
    by blast
  with i(1) st k n c r show ?thesis by blast
qed

section \<open>The trapezoidal profile\<close>

lemma cdiv_nonneg: "0 \<le> a \<Longrightarrow> 0 \<le> b \<Longrightarrow> cdiv a b = a div b"
  by (simp add: cdiv_def)

lemma currentSpeed_accel:
  assumes "0 \<le> i" "i < N div 4"
  shows "currentSpeed N i = 100 + 300 * i div (N div 4)"
  using assms
  by (simp add: currentSpeed_def accelSteps_def cdiv_nonneg minSpeed_def maxSpeed_def)

lemma currentSpeed_cruise:
  assumes "0 \<le> N" "N div 4 \<le> i" "i < N - N div 4"
  shows "currentSpeed N i = 400"
  using assms
  by (simp add: currentSpeed_def accelSteps_def decelSteps_def cdiv_nonneg maxSpeed_def)

lemma currentSpeed_decel:
  assumes "0 \<le> N" "N - N div 4 \<le> i" "i < N"
  shows "currentSpeed N i = 100 + 300 * (N - i) div (N div 4)"
proof -
  have "N div 4 \<le> N - N div 4" using assms(1) by simp
  with assms show ?thesis
    by (simp add: currentSpeed_def accelSteps_def decelSteps_def cdiv_nonneg minSpeed_def
        maxSpeed_def)
qed

lemma ramp_bounds:
  fixes k a :: int
  assumes "0 \<le> k" "k \<le> a" "0 < a"
  shows "0 \<le> 300 * k div a" "300 * k div a \<le> 300"
proof -
  show "0 \<le> 300 * k div a" using assms by (simp add: pos_imp_zdiv_nonneg_iff)
  have "300 * k \<le> 300 * a" using assms by simp
  then have "300 * k div a \<le> 300 * a div a" using assms(3) by (rule zdiv_mono1)
  then show "300 * k div a \<le> 300" using assms(3) by simp
qed


lemma currentSpeed_bounds:
  assumes "0 \<le> i" "i < N"
  shows "100 \<le> currentSpeed N i" "currentSpeed N i \<le> 400"
proof -
  have N: "0 \<le> N" using assms by simp
  consider (a) "i < N div 4" | (c) "N div 4 \<le> i" "i < N - N div 4" | (d) "N - N div 4 \<le> i" "N div 4 \<le> i"
    by linarith
  then have "100 \<le> currentSpeed N i \<and> currentSpeed N i \<le> 400"
  proof cases
    case a
    then have "0 < N div 4" using assms by simp
    from ramp_bounds [OF assms(1) _ this, of ] a show ?thesis
      by (simp add: currentSpeed_accel [OF assms(1) a])
  next
    case c
    then show ?thesis by (simp add: currentSpeed_cruise [OF N])
  next
    case d
    show ?thesis
    proof (cases "N div 4 = 0")
      case True
      with d assms show ?thesis by simp
    next
      case False
      then have p: "0 < N div 4" using N by (simp add: pos_imp_zdiv_nonneg_iff less_le)
      have "0 \<le> N - i" "N - i \<le> N div 4" using d assms by simp_all
      from ramp_bounds [OF this p] show ?thesis
        by (simp add: currentSpeed_decel [OF N d(1) assms(2)])
    qed
  qed
  then show "100 \<le> currentSpeed N i" "currentSpeed N i \<le> 400" by simp_all
qed


lemma smooth_period:
  assumes "0 \<le> i" "i < N"
  shows "period 3 (smooth_stepDelay N i) = nat (1000000 div currentSpeed N i)"
proof -
  let ?v = "currentSpeed N i"
  from currentSpeed_bounds [OF assms] have b: "100 \<le> ?v" "?v \<le> 400" .
  have lo: "2500 \<le> 1000000 div ?v"
    using zdiv_mono2 [of 1000000 ?v 400] b by simp
  have hi: "1000000 div ?v \<le> 10000"
    using zdiv_mono2 [of 1000000 100 ?v] b by simp
  define q where "q = nat (1000000 div ?v)"
  have q: "2500 \<le> q" "q \<le> 10000" using lo hi by (simp_all add: q_def)
  have sd: "smooth_stepDelay N i = word_of_nat q"
    using b lo by (simp add: smooth_stepDelay_def cdiv_nonneg q_def)
  have uq: "unat (word_of_nat q :: uint32) = q" using q by (simp add: unat_of_nat)
  have "(3 :: uint32) \<le> word_of_nat q" using q by (simp add: word_le_nat_alt uq)
  then have "unat ((word_of_nat q :: uint32) - 3) = q - 3" by (simp add: unat_sub uq)
  then have "period 3 (word_of_nat q) = q" using q by (simp add: period_def)
  then show ?thesis by (simp add: sd q_def)
qed

lemma smooth_loop_done:
  "\<not> (i < N \<and> \<not> stopRequested s) \<Longrightarrow> smooth_loop N i s = s"
  by (subst smooth_loop.simps) auto

lemma smooth_loop_step:
  "i < N \<Longrightarrow> \<not> stopRequested s \<Longrightarrow>
   smooth_loop N i s =
     (let s1 = step_pulse 3 (smooth_stepDelay N i) s in
         if i mod 100 = 0 then
           (case decoded s1 of
              Some f \<Rightarrow>
                if valid_stop IR_KEY_SHUTDOWN_sep7a f
                then (ir_next s1)\<lparr>stopRequested := True\<rparr>
                else smooth_loop N (i + 1) (ir_next s1)
            | None \<Rightarrow> smooth_loop N (i + 1) (ir_next s1))
         else smooth_loop N (i + 1) s1)"
  by (subst smooth_loop.simps) simp

lemma pulses_step [simp]:
  "pulses (step_pulse w sd s) = (DIR_PIN s, period w sd) # pulses s"
  "pulses (ir_next s) = pulses s"
  "DIR_PIN (step_pulse w sd s) = DIR_PIN s" "DIR_PIN (ir_next s) = DIR_PIN s"
  by (simp_all add: step_pulse_eq ir_next_def)

lemma decoded_stop_flag [simp]: "decoded (s\<lparr>stopRequested := b\<rparr>) = decoded s"
  by (simp add: decoded_def)

text \<open>A run of the trapezoidal loop that no stop frame interrupts sends every step.\<close>

lemma smooth_loop_run:
  assumes "no_stop_pending IR_KEY_SHUTDOWN_sep7a s" "\<not> stopRequested s" "0 \<le> i"
  shows "pulses (smooth_loop N i s) =
           rev (map (\<lambda>j. (DIR_PIN s, nat (1000000 div currentSpeed N j))) [i..N - 1]) @ pulses s"
  using assms
proof (induction N i s rule: smooth_loop.induct)
  case (1 N i s)
  show ?case
  proof (cases "i < N")
    case False
    then show ?thesis by (simp add: smooth_loop_done)
  next
    case True
    let ?s1 = "step_pulse 3 (smooth_stepDelay N i) s"
    have up: "[i..N - 1] = i # [i + 1..N - 1]" using True by (simp add: upto_rec1)
    have per: "period 3 (smooth_stepDelay N i) = nat (1000000 div currentSpeed N i)"
      using "1.prems"(3) True by (rule smooth_period)
    have q1: "no_stop_pending IR_KEY_SHUTDOWN_sep7a ?s1" using "1.prems"(1) by simp
    have q2: "no_stop_pending IR_KEY_SHUTDOWN_sep7a (ir_next ?s1)"
      using q1 by (rule no_stop_pending_next)
    have c: "i < N \<and> \<not> stopRequested s" using True "1.prems"(2) by simp
    show ?thesis
    proof (cases "i mod 100 = 0")
      case False
      from "1.IH"(3) [OF c refl False] q1 "1.prems"(2,3)
      have "pulses (smooth_loop N (i + 1) ?s1) =
           rev (map (\<lambda>j. (DIR_PIN s, nat (1000000 div currentSpeed N j))) [i + 1..N - 1]) @
             pulses ?s1" by simp
      with False True "1.prems"(2) show ?thesis
        by (simp add: smooth_loop_step Let_def up per)
    next
      case p: True
      have nv: "\<forall>f. decoded ?s1 = Some f \<longrightarrow> \<not> valid_stop IR_KEY_SHUTDOWN_sep7a f"
        using no_stop_pending_decoded [OF q1] by blast
      have "pulses (smooth_loop N (i + 1) (ir_next ?s1)) =
           rev (map (\<lambda>j. (DIR_PIN s, nat (1000000 div currentSpeed N j))) [i + 1..N - 1]) @
             pulses ?s1"
      proof (cases "decoded ?s1")
        case None
        from "1.IH"(1) [OF c refl p None] q2 "1.prems"(2,3) show ?thesis by simp
      next
        case (Some f)
        with nv have "\<not> valid_stop IR_KEY_SHUTDOWN_sep7a f" by simp
        from "1.IH"(2) [OF c refl p Some this] q2 "1.prems"(2,3) show ?thesis by simp
      qed
      with p True "1.prems"(2) nv show ?thesis
        by (cases "decoded ?s1") (simp_all add: smooth_loop_step Let_def up per)
    qed
  qed
qed

text \<open>
  With a valid stop frame waiting at the receiver, either loop is left at its next poll:
  after at most 100 further steps.
\<close>

lemma next_poll_int:
  fixes i :: int
  shows "nat ((- i) mod 100) = 0 \<Longrightarrow> i mod 100 = 0"
    and "nat ((- i) mod 100) = Suc k \<Longrightarrow> i mod 100 \<noteq> 0 \<and> nat ((- (i + 1)) mod 100) = k"
proof -
  assume "nat ((- i) mod 100) = 0"
  then have "(- i) mod 100 = 0" by simp
  then have "100 dvd - i" by (simp add: mod_eq_0_iff_dvd)
  then show "i mod 100 = 0" by (simp add: mod_eq_0_iff_dvd)
next
  assume a: "nat ((- i) mod 100) = Suc k"
  then have m: "(- i) mod 100 = int k + 1" by linarith
  have "i mod 100 \<noteq> 0"
  proof
    assume "i mod 100 = 0"
    then have "100 dvd - i" by (simp add: mod_eq_0_iff_dvd)
    then have "(- i) mod 100 = 0" by (simp add: mod_eq_0_iff_dvd)
    with m show False by simp
  qed
  moreover have "(- (i + 1)) mod 100 = ((- i) mod 100 - 1) mod 100"
    by (simp add: mod_diff_left_eq)
  then have "(- (i + 1)) mod 100 = int k mod 100" by (simp add: m)
  moreover have "int k < 100" using m pos_mod_bound [of 100 "- i"] by simp
  ultimately show "i mod 100 \<noteq> 0 \<and> nat ((- (i + 1)) mod 100) = k" by simp
qed

lemma next_poll_nat:
  shows "99 - c mod 100 = 0 \<Longrightarrow> Suc c mod 100 = 0"
    and "99 - c mod 100 = Suc k \<Longrightarrow>
           Suc c mod 100 \<noteq> 0 \<and> 99 - Suc c mod 100 = k \<and> 100 - c mod 100 = Suc (Suc k) \<and>
           100 - Suc c mod 100 = Suc k"
proof -
  have b: "c mod 100 < 100" by simp
  {
    assume "99 - c mod 100 = 0"
    with b have "c mod 100 = 99" by linarith
    then show "Suc c mod 100 = 0" by (simp add: mod_Suc)
  next
    assume a: "99 - c mod 100 = Suc k"
    then have "Suc (c mod 100) \<noteq> 100" by linarith
    then have "Suc c mod 100 = Suc (c mod 100)" by (simp add: mod_Suc)
    with a show "Suc c mod 100 \<noteq> 0 \<and> 99 - Suc c mod 100 = k \<and>
        100 - c mod 100 = Suc (Suc k) \<and> 100 - Suc c mod 100 = Suc k"
      by linarith
  }
qed

lemma smooth_loop_stop:
  assumes "decoded s = Some f" "valid_stop IR_KEY_SHUTDOWN_sep7a f"
  shows "length (pulses (smooth_loop N i s)) \<le> length (pulses s) + nat ((- i) mod 100) + 1"
  using assms(1)
proof (induction "nat ((- i) mod 100)" arbitrary: i s)
  case 0
  from 0(1) have p: "i mod 100 = 0" using next_poll_int(1) [of i] by simp
  show ?case
  proof (cases "i < N \<and> \<not> stopRequested s")
    case False
    then show ?thesis by (simp add: smooth_loop_done)
  next
    case True
    with p 0(2) assms(2) show ?thesis by (simp add: smooth_loop_step Let_def)
  qed
next
  case (Suc k)
  from Suc(2) have p: "i mod 100 \<noteq> 0" and k: "k = nat ((- (i + 1)) mod 100)"
    using next_poll_int(2) [of i k] by simp_all
  show ?case
  proof (cases "i < N \<and> \<not> stopRequested s")
    case False
    then show ?thesis by (simp add: smooth_loop_done)
  next
    case True
    let ?s1 = "step_pulse 3 (smooth_stepDelay N i) s"
    have "decoded ?s1 = Some f" using Suc(3) by simp
    from Suc(1) [OF k this] have
      "length (pulses (smooth_loop N (i + 1) ?s1)) \<le> length (pulses ?s1) + k + 1"
      using k by simp
    with True p Suc(2) [symmetric] show ?thesis by (simp add: smooth_loop_step Let_def)
  qed
qed

lemma rotate_loop_stop:
  assumes "decoded s = Some f" "valid_stop IR_KEY_SHUTDOWN f"
  shows "\<exists>s'. rotate_loop st D sd c s = Some s' \<and>
              length (pulses s') \<le> length (pulses s) + (100 - c mod 100) \<and>
              (stopRequested s' \<or> \<not> millis s' - st < D)"
  using assms(1)
proof (induction "99 - c mod 100" arbitrary: c s)
  case 0
  from 0(1) have p: "Suc c mod 100 = 0" using next_poll_nat(1) [of c] by simp
  show ?case
  proof (cases "millis s - st < D \<and> \<not> stopRequested s")
    case False
    then show ?thesis by (auto simp: rotate_loop_done)
  next
    case True
    with p 0(2) assms(2) show ?thesis by (simp add: rotate_loop_step Let_def)
  qed
next
  case (Suc k)
  from Suc(2) have p: "Suc c mod 100 \<noteq> 0"
    and k: "k = 99 - Suc c mod 100" "100 - Suc c mod 100 = Suc k" "100 - c mod 100 = Suc (Suc k)"
    using next_poll_nat(2) [of c k] by simp_all
  show ?case
  proof (cases "millis s - st < D \<and> \<not> stopRequested s")
    case False
    then show ?thesis by (auto simp: rotate_loop_done)
  next
    case True
    let ?s1 = "step_pulse 1 sd s"
    have "decoded ?s1 = Some f" using Suc(3) by simp
    from Suc(1) [OF k(1) this] obtain s' where
      "rotate_loop st D sd (Suc c) ?s1 = Some s'"
      "length (pulses s') \<le> length (pulses ?s1) + (100 - Suc c mod 100)"
      "stopRequested s' \<or> \<not> millis s' - st < D" by blast
    with True p k show ?thesis by (simp add: rotate_loop_step Let_def)
  qed
qed


lemma smoothRotate_run:
  assumes "no_stop_pending IR_KEY_SHUTDOWN_sep7a s" "\<not> stopRequested s"
  shows "pulses (smoothRotate N cw s) =
           rev (map (\<lambda>j. (cw, nat (1000000 div currentSpeed N j))) [0..N - 1]) @ pulses s"
proof -
  let ?s1 = "s\<lparr>ENABLE_PIN := False, DIR_PIN := cw\<rparr>"
  have "no_stop_pending IR_KEY_SHUTDOWN_sep7a ?s1" "\<not> stopRequested ?s1"
    using assms by (simp_all add: no_stop_pending_def)
  from smooth_loop_run [OF this, of 0 N] show ?thesis
    by (simp add: smoothRotate_def)
qed






section \<open>Cancellation of a move\<close>

lemma rotateForTime_noise:
  assumes "only_noise s" "\<not> stopRequested s" "D \<noteq> - 1"
  shows "\<exists>s'. rotateForTime D cw s = Some s' \<and> \<not> stopRequested s' \<and>
              \<not> millis s' - millis s < D"
proof -
  from rotateForTime_returns [OF assms(3)] obtain s' where r: "rotateForTime D cw s = Some s'"
    by blast
  from rotateForTime_frame [OF r] obtain n k b where
    s': "s' = s\<lparr>ENABLE_PIN := True, DIR_PIN := cw,
                      pulses := replicate n (cw, 1666) @ pulses s,
                      clock := clock s + n * 1666,
                      ir_in := drop k (ir_in s),
                      stopRequested := b\<rparr>"
    and b: "b \<or> \<not> ms_of (clock s + n * 1666) - millis s < D"
      "no_stop_pending IR_KEY_SHUTDOWN s \<longrightarrow> b = stopRequested s"
    by blast
  from b(2) only_noise_no_stop [OF assms(1)] assms(2) have nb: "\<not> b" by simp
  have "millis s' = ms_of (clock s + n * 1666)" by (simp add: s' millis_def ms_of_def)
  with b(1) nb have "\<not> millis s' - millis s < D" by simp
  moreover have "\<not> stopRequested s'" using nb by (simp add: s')
  ultimately show ?thesis using r by blast
qed

lemma smoothRotate_noise:
  assumes "only_noise s" "\<not> stopRequested s" "0 \<le> N"
  shows "length (pulses (smoothRotate N cw s)) = length (pulses s) + nat N"
  using assms(3)
  by (simp add: smoothRotate_run [OF only_noise_no_stop [OF assms(1)] assms(2)])

text \<open>
  Claim C3. Both pulse loops poll the receiver every 100 steps. From any point of a timed
  move, with any step count so far and any debounce state, a valid stop frame (stop
  code, address and protocol not 0) waiting at the receiver ends the loop at its next poll,
  after at most 100 further steps, unless the time runs out before; the same holds for the
  trapezoidal loop. When every frame the receiver delivers has a zero address or a zero
  protocol, a timed move runs for its whole duration and a trapezoidal move sends all its
  steps, and the stop flag stays clear.
\<close>

theorem stop_within_poll_interval:
  "(decoded s = Some f \<and> valid_stop IR_KEY_SHUTDOWN f \<longrightarrow>
      (\<exists>s'. rotate_loop st D sd c s = Some s' \<and>
            length (pulses s') \<le> length (pulses s) + (100 - c mod 100) \<and>
            (stopRequested s' \<or> \<not> millis s' - st < D))) \<and>
   (only_noise s \<and> \<not> stopRequested s \<and> D \<noteq> - 1 \<longrightarrow>
      (\<exists>s'. rotateForTime D cw s = Some s' \<and> \<not> stopRequested s' \<and>
            \<not> millis s' - millis s < D)) \<and>
   (0 \<le> i \<and> decoded s = Some g \<and> valid_stop IR_KEY_SHUTDOWN_sep7a g \<longrightarrow>
      length (pulses (smooth_loop N i s)) \<le> length (pulses s) + 100) \<and>
   (only_noise s \<and> \<not> stopRequested s \<and> 0 \<le> N \<longrightarrow>
      length (pulses (smoothRotate N cw s)) = length (pulses s) + nat N)"
proof (intro conjI impI)
  assume "decoded s = Some f \<and> valid_stop IR_KEY_SHUTDOWN f"
  then show "\<exists>s'. rotate_loop st D sd c s = Some s' \<and>
            length (pulses s') \<le> length (pulses s) + (100 - c mod 100) \<and>
            (stopRequested s' \<or> \<not> millis s' - st < D)"
    using rotate_loop_stop by blast
next
  assume "only_noise s \<and> \<not> stopRequested s \<and> D \<noteq> - 1"
  then show "\<exists>s'. rotateForTime D cw s = Some s' \<and> \<not> stopRequested s' \<and>
            \<not> millis s' - millis s < D"
    using rotateForTime_noise by blast
next
  assume a: "0 \<le> i \<and> decoded s = Some g \<and> valid_stop IR_KEY_SHUTDOWN_sep7a g"
  have "nat ((- i) mod 100) < 100" using pos_mod_bound [of 100 "- i"] by simp
  with smooth_loop_stop [of s g N i] a
  show "length (pulses (smooth_loop N i s)) \<le> length (pulses s) + 100" by simp
next
  assume "only_noise s \<and> \<not> stopRequested s \<and> 0 \<le> N"
  then show "length (pulses (smoothRotate N cw s)) = length (pulses s) + nat N"
    by (simp add: smoothRotate_noise)
qed

theorem stop_within_poll_interval_witness:
  "decoded (idle_example\<lparr>ir_in := [Some foreign_stop]\<rparr>) = Some foreign_stop \<and>
   valid_stop IR_KEY_SHUTDOWN foreign_stop \<and>
   (\<exists>s'. rotate_loop 0 7000 1666 250 (idle_example\<lparr>ir_in := [Some foreign_stop]\<rparr>) = Some s' \<and>
         length (pulses s') \<le> 50) \<and>
   only_noise (idle_example\<lparr>ir_in := [Some noise_frame]\<rparr>) \<and>
   (\<exists>s'. rotateForTime 1000 True (idle_example\<lparr>ir_in := [Some noise_frame]\<rparr>) = Some s' \<and>
         \<not> stopRequested s') \<and>
   decoded (idle_example\<lparr>ir_in := [Some sep7a_stop]\<rparr>) = Some sep7a_stop \<and>
   valid_stop IR_KEY_SHUTDOWN_sep7a sep7a_stop \<and>
   length (pulses (smooth_loop 400 0 (idle_example\<lparr>ir_in := [Some sep7a_stop]\<rparr>))) \<le> 100 \<and>
   length (pulses (smoothRotate 400 True (idle_example\<lparr>ir_in := [Some noise_frame]\<rparr>))) = 400"
proof -
  let ?a = "idle_example\<lparr>ir_in := [Some foreign_stop]\<rparr>"
  let ?b = "idle_example\<lparr>ir_in := [Some noise_frame]\<rparr>"
  let ?c = "idle_example\<lparr>ir_in := [Some sep7a_stop]\<rparr>"
  have ha: "decoded ?a = Some foreign_stop" "valid_stop IR_KEY_SHUTDOWN foreign_stop"
    "pulses ?a = []"
    by (simp_all add: decoded_def valid_stop_def foreign_stop_def IR_KEY_SHUTDOWN_def state_defs)
  have hb: "only_noise ?b" "\<not> stopRequested ?b" "pulses ?b = []"
    by (simp_all add: only_noise_def noise_frame_def state_defs)
  have hc: "decoded ?c = Some sep7a_stop" "valid_stop IR_KEY_SHUTDOWN_sep7a sep7a_stop"
    "pulses ?c = []"
    by (simp_all add: decoded_def valid_stop_def sep7a_stop_def IR_KEY_SHUTDOWN_sep7a_def
        state_defs)
  note p1 = stop_within_poll_interval
    [where s = ?a and f = foreign_stop and st = 0 and D = 7000 and sd = 1666 and c = 250,
      THEN conjunct1, rule_format]
  note p2 = stop_within_poll_interval
    [where s = ?b and D = 1000 and cw = True, THEN conjunct2, THEN conjunct1, rule_format]
  note p3 = stop_within_poll_interval
    [where s = ?c and g = sep7a_stop and i = 0 and N = 400,
      THEN conjunct2, THEN conjunct2, THEN conjunct1, rule_format]
  note p4 = stop_within_poll_interval
    [where s = ?b and cw = True and N = 400,
      THEN conjunct2, THEN conjunct2, THEN conjunct2, rule_format]
  from p1 [OF conjI [OF ha(1,2)]]
  have 1: "\<exists>s'. rotate_loop 0 7000 1666 250 ?a = Some s' \<and> length (pulses s') \<le> 50"
    by (auto simp: ha(3))
  have "(1000 :: int32) \<noteq> - 1" by simp
  from p2 [OF conjI [OF hb(1) conjI [OF hb(2) this]]]
  have 2: "\<exists>s'. rotateForTime 1000 True ?b = Some s' \<and> \<not> stopRequested s'"
    by blast
  have "(0 :: int) \<le> 0" by simp
  from p3 [OF conjI [OF this conjI [OF hc(1,2)]]]
  have 3: "length (pulses (smooth_loop 400 0 ?c)) \<le> 100" by (simp add: hc(3))
  have "(0 :: int) \<le> 400" by simp
  from p4 [OF conjI [OF hb(1) conjI [OF hb(2) this]]]
  have 4: "length (pulses (smoothRotate 400 True ?b)) = 400" by (simp add: hb(3))
  from ha hb hc 1 2 3 4 show ?thesis by blast
qed

end
